theory Spec2Isabelle
  imports Main "HOL-Library.AList"
begin

section \<open>The stub event service\<close>

text \<open>
  The event service of the test support code keeps its listeners in a JavaScript
  \<open>Set\<close> and hands every event or stream error to each of them with
  \<open>Set.prototype.forEach\<close>. A listener is an object; the set compares objects by
  identity, so a listener carries the number \<open>lid\<close> it was allocated under
  (\<open>new\<close> never returns an object twice). Its other fields are read-only in the source.

  A callback is application code. It is modelled as the finite script of what it may do
  to the stream it is called from: register a further transaction listener, unregister a
  listener, or throw. An \<open>Error\<close> object is its message; \<open>EventInfo\<close> is the event with the
  one field the listener reads.
\<close>

datatype exn = Error string

datatype EventInfo = EventInfo (event_transactionId: string)

record EventRegistrationOptions =
  unregister :: "bool option"

datatype EventCallback = EventCallback "action list"
  and action =
    Register string EventCallback EventRegistrationOptions
  | Unregister nat
  | Throw exn

record StubTransactionEventListener =
  lid :: nat
  transactionId :: string
  callback :: EventCallback
  options :: EventRegistrationOptions

text \<open>
  What an observer of the stream sees, in order: a listener added to the set, a listener
  removed from it, \<open>onEvent\<close> entered on a listener, and a callback called with its two
  arguments (\<open>None\<close> is JavaScript's \<open>undefined\<close>).
\<close>

datatype obs =
    Added nat
  | Removed nat
  | Invoked nat "exn option" "EventInfo option"
  | Called nat "exn option" "EventInfo option"

text \<open>
  The two fields \<open>allocated\<close> and \<open>history\<close> are not fields of the source:
  \<open>allocated\<close> is the identity the next \<open>new\<close> listener gets, and \<open>history\<close> is the
  record of the observations so far, kept so that "called exactly once" and "removed
  before called" can be stated.

  The set is the list of its entries in insertion order, as ECMAScript specifies it:
  \<open>delete\<close> replaces the entry by an empty slot (\<open>None\<close>), \<open>add\<close> appends an object that
  is not yet present, and \<open>forEach\<close> walks the slots by index, reading the length again
  after every call, so that it skips what was deleted before it got there and also visits
  what was added meanwhile.
\<close>

record StubEventService =
  eventListeners :: "StubTransactionEventListener option list"
  allocated :: nat
  history :: "obs list"

fun live :: "'a option list \<Rightarrow> 'a list" where
  "live [] = []"
| "live (None # es) = live es"
| "live (Some l # es) = l # live es"

definition ids :: "StubEventService \<Rightarrow> nat set" where
  "ids s = set (map lid (live (eventListeners s)))"

fun vacate :: "nat \<Rightarrow> StubTransactionEventListener option \<Rightarrow> StubTransactionEventListener option" where
  "vacate h None = None"
| "vacate h (Some l) = (if lid l = h then None else Some l)"

definition set_delete ::
  "nat \<Rightarrow> StubTransactionEventListener option list \<Rightarrow> bool \<times> StubTransactionEventListener option list" where
  "set_delete h es =
     (if h \<in> set (map lid (live es)) then (True, map (vacate h) es) else (False, es))"

definition set_add ::
  "StubTransactionEventListener \<Rightarrow> StubTransactionEventListener option list \<Rightarrow> StubTransactionEventListener option list" where
  "set_add l es = (if lid l \<in> set (map lid (live es)) then es else es @ [Some l])"

text \<open>
  \<open>unregisterEventListener(eventListener)\<close>: the argument is a reference to a listener
  object, that is, its identity.
\<close>

definition unregisterEventListener :: "nat \<Rightarrow> StubEventService \<Rightarrow> exn option \<times> StubEventService" where
  "unregisterEventListener h s =
     (case set_delete h (eventListeners s) of
        (removed, es) \<Rightarrow>
          if \<not> removed
          then (Some (Error ''unregisterEventLister called for listener that is not registered''), s)
          else (None, s\<lparr>eventListeners := es, history := history s @ [Removed h]\<rparr>))"

definition registerTransactionListener ::
  "string \<Rightarrow> EventCallback \<Rightarrow> EventRegistrationOptions \<Rightarrow> StubEventService
     \<Rightarrow> StubTransactionEventListener \<times> StubEventService" where
  "registerTransactionListener txid cb opts s =
     (let listener = \<lparr>lid = allocated s, transactionId = txid, callback = cb, options = opts\<rparr>
      in (listener,
          s\<lparr>eventListeners := set_add listener (eventListeners s),
            allocated := Suc (allocated s),
            history := history s @ [Added (lid listener)]\<rparr>))"

text \<open>What a callback does: its script, action by action, up to the first exception.\<close>

fun perform :: "action \<Rightarrow> StubEventService \<Rightarrow> exn option \<times> StubEventService" where
  "perform (Register txid cb opts) s = (None, snd (registerTransactionListener txid cb opts s))"
| "perform (Unregister h) s = unregisterEventListener h s"
| "perform (Throw x) s = (Some x, s)"

fun run :: "action list \<Rightarrow> StubEventService \<Rightarrow> exn option \<times> StubEventService" where
  "run [] s = (None, s)"
| "run (a # as) s =
     (case perform a s of
        (Some x, s') \<Rightarrow> (Some x, s')
      | (None, s') \<Rightarrow> run as s')"

fun script :: "EventCallback \<Rightarrow> action list" where
  "script (EventCallback as) = as"

text \<open>
  The test of \<open>onEvent\<close>, \<open>error || event.transactionId === this.transactionId\<close>:
  a given error is truthy; without an error the event is read, and reading a property
  of \<open>undefined\<close> is a TypeError (\<open>None\<close> here).
\<close>

fun matches :: "StubTransactionEventListener \<Rightarrow> exn option \<Rightarrow> EventInfo option \<Rightarrow> bool option" where
  "matches l (Some x) event = Some True"
| "matches l None (Some e) = Some (event_transactionId e = transactionId l)"
| "matches l None None = None"

definition onEvent ::
  "StubTransactionEventListener \<Rightarrow> exn option \<Rightarrow> EventInfo option \<Rightarrow> StubEventService
     \<Rightarrow> exn option \<times> StubEventService" where
  "onEvent l error event s =
     (let s0 = s\<lparr>history := history s @ [Invoked (lid l) error event]\<rparr> in
      case matches l error event of
        None \<Rightarrow> (Some (Error ''TypeError: Cannot read property transactionId of undefined''), s0)
      | Some False \<Rightarrow> (None, s0)
      | Some True \<Rightarrow>
          (case (if unregister (options l) \<noteq> Some False
                 then unregisterEventListener (lid l) s0 else (None, s0)) of
             (Some x, s1) \<Rightarrow> (Some x, s1)
           | (None, s1) \<Rightarrow>
               run (script (callback l)) (s1\<lparr>history := history s1 @ [Called (lid l) error event]\<rparr>)))"

subsection \<open>Dispatch\<close>

text \<open>
  \<open>forEach\<close> visits listeners that callbacks add while it runs, so its loop is not
  bounded by the length of the set at the call. It ends all the same: a listener
  registered by a callback has a callback that is a proper part of the registering script.
  The weight of a callback counts the callbacks nested in it.
\<close>

primrec weight :: "EventCallback \<Rightarrow> nat" and act_weight :: "action \<Rightarrow> nat" where
  "weight (EventCallback as) = Suc (sum_list (map act_weight as))"
| "act_weight (Register txid cb opts) = weight cb"
| "act_weight (Unregister h) = 0"
| "act_weight (Throw x) = 0"

fun slot_weight :: "StubTransactionEventListener option \<Rightarrow> nat" where
  "slot_weight None = 0"
| "slot_weight (Some l) = weight (callback l)"

definition work_left :: "nat \<Rightarrow> StubEventService \<Rightarrow> nat" where
  "work_left i s = sum_list (map slot_weight (drop i (eventListeners s)))"

lemma slot_weight_vacate: "slot_weight (vacate h e) \<le> slot_weight e"
  by (cases e) auto

lemma sum_vacate: "sum_list (map slot_weight (map (vacate h) es)) \<le> sum_list (map slot_weight es)"
  by (induction es) (auto intro: add_mono slot_weight_vacate)

lemma work_left_unregister:
  "unregisterEventListener h s = (r, s') \<Longrightarrow>
     work_left i s' \<le> work_left i s \<and> length (eventListeners s') = length (eventListeners s)"
  using sum_vacate[of h "drop i (eventListeners s)"]
  by (auto simp: unregisterEventListener_def set_delete_def work_left_def drop_map split: if_splits)

lemma sum_drop_single: "sum_list (map slot_weight (drop k [e])) \<le> slot_weight e"
  by (cases k) auto

lemma work_left_register:
  "registerTransactionListener txid cb opts s = (l, s') \<Longrightarrow>
     work_left i s' \<le> work_left i s + weight cb \<and> length (eventListeners s) \<le> length (eventListeners s')"
  using sum_drop_single[of "i - length (eventListeners s)" "Some l"]
  by (auto simp: registerTransactionListener_def set_add_def work_left_def Let_def)

lemma work_left_perform:
  "perform a s = (r, s') \<Longrightarrow>
     work_left i s' \<le> work_left i s + act_weight a \<and> length (eventListeners s) \<le> length (eventListeners s')"
proof (cases a)
  case (Register txid cb opts)
  assume "perform a s = (r, s')"
  with Register work_left_register[of txid cb opts s "fst (registerTransactionListener txid cb opts s)" s' i]
  show ?thesis by (auto simp: prod_eq_iff)
next
  case (Unregister h)
  assume "perform a s = (r, s')"
  with Unregister work_left_unregister[of h s r s' i] show ?thesis by auto
next
  case (Throw x)
  assume "perform a s = (r, s')"
  with Throw show ?thesis by auto
qed

lemma work_left_run:
  "run as s = (r, s') \<Longrightarrow>
     work_left i s' \<le> work_left i s + sum_list (map act_weight as) \<and> length (eventListeners s) \<le> length (eventListeners s')"
proof (induction as arbitrary: s)
  case Nil
  then show ?case by simp
next
  case (Cons a as)
  obtain r1 s1 where p: "perform a s = (r1, s1)" by (cases "perform a s")
  note b = work_left_perform[OF p, of i]
  show ?case
  proof (cases r1)
    case None
    with Cons.prems p have "run as s1 = (r, s')" by simp
    from Cons.IH[OF this] b show ?thesis by simp
  next
    case (Some x)
    with Cons.prems p have "s' = s1" by simp
    with b show ?thesis by simp
  qed
qed

lemma weight_script: "weight cb = Suc (sum_list (map act_weight (script cb)))"
  by (cases cb) simp

lemma work_left_history [simp]: "work_left i (s\<lparr>history := h\<rparr>) = work_left i s"
  by (simp add: work_left_def)

lemma onEvent_Some_True:
  "matches l error event = Some True \<Longrightarrow>
   onEvent l error event s =
     (case (if unregister (options l) \<noteq> Some False
            then unregisterEventListener (lid l) (s\<lparr>history := history s @ [Invoked (lid l) error event]\<rparr>)
            else (None, s\<lparr>history := history s @ [Invoked (lid l) error event]\<rparr>)) of
        (Some x, s1) \<Rightarrow> (Some x, s1)
      | (None, s1) \<Rightarrow>
          run (script (callback l)) (s1\<lparr>history := history s1 @ [Called (lid l) error event]\<rparr>))"
  by (simp add: onEvent_def Let_def)

lemma onEvent_Some_False:
  "matches l error event = Some False \<Longrightarrow>
   onEvent l error event s = (None, s\<lparr>history := history s @ [Invoked (lid l) error event]\<rparr>)"
  by (simp add: onEvent_def Let_def)

lemma onEvent_None:
  "matches l error event = None \<Longrightarrow>
   onEvent l error event s =
     (Some (Error ''TypeError: Cannot read property transactionId of undefined''),
      s\<lparr>history := history s @ [Invoked (lid l) error event]\<rparr>)"
  by (simp add: onEvent_def Let_def)

lemma work_left_onEvent:
  assumes "onEvent l error event s = (r, s')"
  shows "work_left i s' < work_left i s + weight (callback l) \<and> length (eventListeners s) \<le> length (eventListeners s')"
proof (cases "matches l error event")
  case None
  with assms show ?thesis by (auto simp: onEvent_None weight_script)
next
  case (Some m)
  show ?thesis
  proof (cases m)
    case False
    with Some assms show ?thesis by (auto simp: onEvent_Some_False weight_script)
  next
    case True
    define s0 where "s0 = s\<lparr>history := history s @ [Invoked (lid l) error event]\<rparr>"
    define u where "u = (if unregister (options l) \<noteq> Some False
                 then unregisterEventListener (lid l) s0 else (None, s0))"
    obtain r1 s1 where u: "u = (r1, s1)" by (cases u)
    have b1: "work_left i s1 \<le> work_left i s \<and> length (eventListeners s1) = length (eventListeners s)"
      using u work_left_unregister[of "lid l" s0 r1 s1 i]
      by (auto simp: s0_def u_def split: if_splits)
    from Some True have mt: "matches l error event = Some True" by simp
    from assms u
    have o: "(case (r1, s1) of (Some x, s1) \<Rightarrow> (Some x, s1)
      | (None, s1) \<Rightarrow>
          run (script (callback l)) (s1\<lparr>history := history s1 @ [Called (lid l) error event]\<rparr>)) = (r, s')"
      unfolding onEvent_Some_True[of l error event s, OF mt] u_def s0_def by simp
    show ?thesis
    proof (cases r1)
      case None
      with o
      have "run (script (callback l)) (s1\<lparr>history := history s1 @ [Called (lid l) error event]\<rparr>) = (r, s')"
        by simp
      from work_left_run[OF this, of i] b1 show ?thesis
        by (simp add: weight_script)
    next
      case (Some x)
      with o have "s' = s1" by simp
      with b1 show ?thesis by (simp add: weight_script)
    qed
  qed
qed

lemma work_left_slot:
  "index < length (eventListeners s) \<Longrightarrow>
   work_left index s = slot_weight (eventListeners s ! index) + work_left (Suc index) s"
  by (simp add: work_left_def Cons_nth_drop_Suc[symmetric])

lemma forEach_step_decreases:
  assumes "index < length (eventListeners s)" and "eventListeners s ! index = Some l"
    and "(None, s') = onEvent l error event s"
  shows "work_left (Suc index) s' < work_left index s"
  using work_left_onEvent[of l error event s None s' "Suc index"] assms work_left_slot[of index s]
  by simp

text \<open>
  \<open>this.eventListeners.forEach((listener) => listener.onEvent(error, event))\<close>, from
  the slot \<open>index\<close> on. An exception thrown by \<open>onEvent\<close> leaves the loop.
\<close>

function forEach_onEvent ::
  "exn option \<Rightarrow> EventInfo option \<Rightarrow> nat \<Rightarrow> StubEventService \<Rightarrow> exn option \<times> StubEventService" where
  "forEach_onEvent error event index s =
     (if index < length (eventListeners s) then
        (case eventListeners s ! index of
           None \<Rightarrow> forEach_onEvent error event (Suc index) s
         | Some listener \<Rightarrow>
             (case onEvent listener error event s of
                (Some x, s') \<Rightarrow> (Some x, s')
              | (None, s') \<Rightarrow> forEach_onEvent error event (Suc index) s'))
      else (None, s))"
  by pat_completeness auto
termination
proof (relation "measures [\<lambda>(error, event, index, s). work_left index s,
                           \<lambda>(error, event, index, s). length (eventListeners s) - index]", goal_cases)
  case 1
  then show ?case by simp
next
  case 2
  then show ?case by (simp add: work_left_slot)
next
  case 3
  then show ?case by (auto dest: forEach_step_decreases)
qed

declare forEach_onEvent.simps [simp del]

definition sendEvent :: "EventInfo \<Rightarrow> StubEventService \<Rightarrow> exn option \<times> StubEventService" where
  "sendEvent event s = forEach_onEvent None (Some event) 0 s"

definition sendError :: "exn \<Rightarrow> StubEventService \<Rightarrow> exn option \<times> StubEventService" where
  "sendError error s = forEach_onEvent (Some error) None 0 s"

text \<open>\<open>new StubEventService(name)\<close>: no listener yet.\<close>

definition newStubEventService :: StubEventService where
  "newStubEventService = \<lparr>eventListeners = [], allocated = 0, history = []\<rparr>"

text \<open>
  A stream built through its own operations holds no object twice and only objects it
  has allocated.
\<close>

definition wellformed :: "StubEventService \<Rightarrow> bool" where
  "wellformed s =
     (distinct (map lid (live (eventListeners s))) \<and>
      list_all (\<lambda>l. lid l < allocated s) (live (eventListeners s)))"

subsection \<open>What a call adds to the history\<close>

definition emitted :: "StubEventService \<Rightarrow> StubEventService \<Rightarrow> obs list" where
  "emitted s s' = drop (length (history s)) (history s')"

fun about :: "obs \<Rightarrow> nat" where
  "about (Added h) = h"
| "about (Removed h) = h"
| "about (Invoked h error event) = h"
| "about (Called h error event) = h"

definition events_of :: "nat \<Rightarrow> obs list \<Rightarrow> obs list" where
  "events_of h tr = filter (\<lambda>x. about x = h) tr"

text \<open>The listeners on which \<open>onEvent\<close> was entered, in order.\<close>

fun invoked :: "obs list \<Rightarrow> nat list" where
  "invoked [] = []"
| "invoked (Invoked h error event # tr) = h # invoked tr"
| "invoked (x # tr) = invoked tr"

text \<open>The arguments with which the callback of listener \<open>h\<close> was called, in order.\<close>

fun callbacks_of :: "nat \<Rightarrow> obs list \<Rightarrow> (exn option \<times> EventInfo option) list" where
  "callbacks_of h [] = []"
| "callbacks_of h (Called h' error event # tr) =
     (if h' = h then (error, event) # callbacks_of h tr else callbacks_of h tr)"
| "callbacks_of h (x # tr) = callbacks_of h tr"

text \<open>The listeners that were removed from the set, in order.\<close>

fun removed :: "obs list \<Rightarrow> nat list" where
  "removed [] = []"
| "removed (Removed h # tr) = h # removed tr"
| "removed (x # tr) = removed tr"

text \<open>No listener has \<open>onEvent\<close> entered after it was removed from the set.\<close>

fun never_after_removal :: "obs list \<Rightarrow> bool" where
  "never_after_removal [] = True"
| "never_after_removal (Removed h # tr) = (h \<notin> set (invoked tr) \<and> never_after_removal tr)"
| "never_after_removal (x # tr) = never_after_removal tr"

text \<open>The listeners in the slots from \<open>k\<close> on: those a \<open>forEach\<close> at \<open>k\<close> has still to visit.\<close>

definition waiting :: "nat \<Rightarrow> StubEventService \<Rightarrow> StubTransactionEventListener set" where
  "waiting k s = set (live (drop k (eventListeners s)))"

text \<open>
  A callback that neither throws nor unregisters: all it does is register listeners whose
  callbacks are of the same kind.
\<close>

primrec quiet :: "EventCallback \<Rightarrow> bool" and quiet_action :: "action \<Rightarrow> bool" where
  "quiet (EventCallback as) = list_all quiet_action as"
| "quiet_action (Register txid cb opts) = quiet cb"
| "quiet_action (Unregister h) = False"
| "quiet_action (Throw x) = False"

definition all_quiet :: "StubEventService \<Rightarrow> bool" where
  "all_quiet s = list_all (\<lambda>l. quiet (callback l)) (live (eventListeners s))"


text \<open>
  How one state of the stream follows from an earlier one through the operations: the
  history is extended, identities are only ever handed out once, a listener leaves the
  set only with a removal in the history, never comes back and so is removed at most once.
\<close>

definition evolves :: "StubEventService \<Rightarrow> StubEventService \<Rightarrow> bool" where
  "evolves s s' \<longleftrightarrow>
     history s' = history s @ emitted s s' \<and>
     allocated s \<le> allocated s' \<and>
     length (eventListeners s) \<le> length (eventListeners s') \<and>
     wellformed s' \<and>
     (\<forall>k. waiting k s' \<subseteq> waiting k s \<union> {l. allocated s \<le> lid l \<and> lid l < allocated s'}) \<and>
     (\<forall>k l. l \<in> waiting k s \<longrightarrow> l \<notin> waiting k s' \<longrightarrow> Removed (lid l) \<in> set (emitted s s')) \<and>
     (\<forall>h. Removed h \<in> set (emitted s s') \<longrightarrow> h < allocated s' \<and> h \<notin> ids s') \<and>
     (\<forall>h. Removed h \<in> set (emitted s s') \<longrightarrow> h \<in> ids s \<or> allocated s \<le> h) \<and>
     (\<forall>h. Added h \<in> set (emitted s s') \<longrightarrow> allocated s \<le> h \<and> h < allocated s') \<and>
     (\<forall>k l. l \<in> waiting k s' \<longrightarrow> l \<notin> waiting k s \<longrightarrow> Added (lid l) \<in> set (emitted s s')) \<and>
     distinct (removed (emitted s s'))"

subsection \<open>Notions used to state what a dispatch does\<close>

text \<open>A script adds and removes listeners; it enters no \<open>onEvent\<close> and calls no callback.\<close>

fun membership :: "obs \<Rightarrow> bool" where
  "membership (Added h) = True"
| "membership (Removed h) = True"
| "membership x = False"

definition one_shot :: "StubTransactionEventListener \<Rightarrow> bool" where
  "one_shot l = (unregister (options l) \<noteq> Some False)"

text \<open>
  The state in which the callback of \<open>l\<close> starts to run, when \<open>l\<close> matches and, if it
  is one-shot, is a member of the set.
\<close>

definition at_callback ::
  "StubTransactionEventListener \<Rightarrow> exn option \<Rightarrow> EventInfo option \<Rightarrow> StubEventService \<Rightarrow> StubEventService" where
  "at_callback l error event s =
     (if one_shot l
      then s\<lparr>eventListeners := map (vacate (lid l)) (eventListeners s),
             history := history s @ [Invoked (lid l) error event, Removed (lid l), Called (lid l) error event]\<rparr>
      else s\<lparr>history := history s @ [Invoked (lid l) error event, Called (lid l) error event]\<rparr>)"

text \<open>What holds of a \<open>forEach\<close> started at slot \<open>i\<close>, whatever the callbacks do.\<close>

definition dispatched ::
  "exn option \<Rightarrow> EventInfo option \<Rightarrow> nat \<Rightarrow> StubEventService \<Rightarrow> exn option \<Rightarrow> StubEventService \<Rightarrow> bool" where
  "dispatched error event i s r s' \<longleftrightarrow>
     evolves s s' \<and>
     distinct (invoked (emitted s s')) \<and>
     (\<forall>h\<in>set (invoked (emitted s s')). h \<in> lid ` waiting i s \<or> Added h \<in> set (emitted s s')) \<and>
     never_after_removal (emitted s s') \<and>
     (r = None \<longrightarrow>
        (\<forall>l\<in>waiting i s. lid l \<in> set (invoked (emitted s s')) \<or> Removed (lid l) \<in> set (emitted s s'))) \<and>
     list_all (\<lambda>x. membership x \<or> (\<exists>h. x = Invoked h error event) \<or> (\<exists>h. x = Called h error event))
       (emitted s s') \<and>
     (\<forall>l\<in>waiting i s.
        callbacks_of (lid l) (emitted s s') =
          (if lid l \<in> set (invoked (emitted s s')) \<and> matches l error event = Some True
           then [(error, event)] else [])) \<and>
     (\<forall>l\<in>waiting i s.
        lid l \<in> set (invoked (emitted s s')) \<longrightarrow> matches l error event = Some True \<longrightarrow> one_shot l \<longrightarrow>
          Removed (lid l) \<in> set (emitted s s')) \<and>
     (\<forall>h. h < allocated s \<longrightarrow> h \<notin> lid ` waiting i s \<longrightarrow> callbacks_of h (emitted s s') = [])"

text \<open>
  What the history must show of a listener that a dispatch reaches: the entry into
  \<open>onEvent\<close> and, if the listener matches, its removal when it is one-shot and then the
  call of its callback.
\<close>

definition expected :: "StubTransactionEventListener \<Rightarrow> exn option \<Rightarrow> EventInfo option \<Rightarrow> obs list" where
  "expected l error event =
     Invoked (lid l) error event #
       (if matches l error event = Some True
        then (if one_shot l then [Removed (lid l)] else []) @ [Called (lid l) error event]
        else [])"

definition additions :: "obs list \<Rightarrow> bool" where
  "additions tr = list_all (\<lambda>x. \<exists>h. x = Added h) tr"


section \<open>The network\<close>

text \<open>
  \<open>network.js\<close>. The gateway, the channel, its client and the discovery service are
  collaborators outside this file: what they answer is a parameter, and every call made to
  one of them is recorded in \<open>calls\<close>, in order.
\<close>

record Endorser =
  name :: string
  mspid :: string
  endpoint :: string
  connected :: bool

text \<open>
  \<open>options.targets\<close> is tested for truthiness and then with \<open>Array.isArray\<close>: it is
  falsy (not given), a truthy value that is no array, or an array (the empty array is
  truthy).
\<close>

datatype discovery_targets = NotGiven | NotAnArray | Targets "Endorser list"

record DiscoveryOptions =
  enabled :: bool
  targets :: discovery_targets
  asLocalhost :: bool

datatype Discoverer = Discoverer string string

datatype call =
    GetIdentity
  | ChannelGetEndorsers string
  | ClientGetEndorsers "string option"
  | NewDiscoverer string string
  | Connect string
  | NewDiscoveryService string
  | Build
  | Sign
  | Send bool "Discoverer list"
  | SessionStart nat
  | SessionClose nat

record Collaborators =
  identity_mspId :: string
  channel_name :: string
  channel_getEndorsers :: "string \<Rightarrow> Endorser list option"
  client_getEndorsers :: "string option \<Rightarrow> Endorser list option"
  connect_to :: "string \<Rightarrow> exn option"
  build_request :: "exn option"
  sign_request :: "exn option"
  send_request :: "bool \<Rightarrow> Discoverer list \<Rightarrow> exn option"

record Contract =
  cid :: nat
  chaincodeId :: string
  namespace :: string
  collections :: "string list option"

record CommitListenerSession =
  sid :: nat
  session_listener :: nat
  session_peers :: "Endorser list"
  session_transactionId :: string

text \<open>
  The two \<open>Map\<close>s are association lists in insertion order: \<open>set\<close> is
  \<open>AList.update\<close>, \<open>get\<close> is \<open>map_of\<close>, \<open>delete\<close> is \<open>AList.delete\<close>. A commit
  listener is a function; the map compares keys by identity, here a number. \<open>fresh\<close> is
  the identity the next \<open>new\<close> object gets.
\<close>

record Network =
  contracts :: "(string \<times> Contract) list"
  initialized :: bool
  commitListeners :: "(nat \<times> CommitListenerSession) list"
  discoveryService :: "string option"
  fresh :: nat
  calls :: "call list"

definition newNetwork :: Network where
  "newNetwork =
     \<lparr>contracts = [], initialized = False, commitListeners = [], discoveryService = None,
      fresh = 0, calls = []\<rparr>"

definition called :: "call list \<Rightarrow> Network \<Rightarrow> Network" where
  "called cs n = n\<lparr>calls := calls n @ cs\<rparr>"

text \<open>\<open>!targets || targets.length < 1\<close>\<close>

fun none_found :: "Endorser list option \<Rightarrow> bool" where
  "none_found None = True"
| "none_found (Some ts) = (length ts < 1)"

text \<open>Lines 94 to 105: the targets the caller gave.\<close>

fun given_targets :: "discovery_targets \<Rightarrow> exn + Endorser list" where
  "given_targets (Targets ts) =
     (if length ts > 0 then
        (case find (\<lambda>target. \<not> connected target) ts of
           Some target \<Rightarrow>
             Inl (Error (''Endorser instance '' @ name target @ '' is not connected to an endpoint''))
         | None \<Rightarrow> Inr ts)
      else Inl (Error ''No discovery targets found''))"
| "given_targets other = Inl (Error ''No discovery targets found'')"

text \<open>Lines 107 to 125: no targets given, ask the channel, then the client.\<close>

definition known_targets :: "Collaborators \<Rightarrow> Network \<Rightarrow> (exn + Endorser list) \<times> Network" where
  "known_targets env n =
     (let mspId = identity_mspId env;
          t1 = channel_getEndorsers env mspId;
          n1 = called [GetIdentity, ChannelGetEndorsers mspId] n;
          (t2, n2) = (if none_found t1
                      then (client_getEndorsers env (Some mspId), called [ClientGetEndorsers (Some mspId)] n1)
                      else (t1, n1));
          (t3, n3) = (if none_found t2
                      then (client_getEndorsers env None, called [ClientGetEndorsers None] n2)
                      else (t2, n2))
      in case t3 of
           None \<Rightarrow> (Inl (Error ''No discovery targets found''), n3)
         | Some ts \<Rightarrow>
             if length ts < 1 then (Inl (Error ''No discovery targets found''), n3)
             else (Inr ts, n3))"

text \<open>Lines 129 to 134: a discoverer for each target, connected before the next.\<close>

fun connect_discoverers ::
  "Collaborators \<Rightarrow> Endorser list \<Rightarrow> Discoverer list \<Rightarrow> Network \<Rightarrow> (exn + Discoverer list) \<times> Network" where
  "connect_discoverers env [] discoverers n = (Inr discoverers, n)"
| "connect_discoverers env (peer # peers) discoverers n =
     (let n1 = called [NewDiscoverer (name peer) (mspid peer), Connect (endpoint peer)] n
      in case connect_to env (endpoint peer) of
           Some x \<Rightarrow> (Inl x, n1)
         | None \<Rightarrow> connect_discoverers env peers (discoverers @ [Discoverer (name peer) (mspid peer)]) n1)"

text \<open>Lines 128 to 150: connect, then build, sign and send the discovery request.\<close>

definition discover ::
  "Collaborators \<Rightarrow> DiscoveryOptions \<Rightarrow> Endorser list \<Rightarrow> Network \<Rightarrow> exn option \<times> Network" where
  "discover env opts ts n =
     (case connect_discoverers env ts [] n of
        (Inl x, n1) \<Rightarrow> (Some x, n1)
      | (Inr discoverers, n1) \<Rightarrow>
          (let n2 = called [NewDiscoveryService (channel_name env), Build]
                      (n1\<lparr>discoveryService := Some (channel_name env)\<rparr>)
           in case build_request env of
                Some x \<Rightarrow> (Some x, n2)
              | None \<Rightarrow>
                  (let n3 = called [Sign] n2
                   in case sign_request env of
                        Some x \<Rightarrow> (Some x, n3)
                      | None \<Rightarrow>
                          (send_request env (asLocalhost opts) discoverers,
                           called [Send (asLocalhost opts) discoverers] n3))))"

text \<open>\<open>_initializeInternalChannel(options)\<close>\<close>

definition initializeInternalChannel ::
  "Collaborators \<Rightarrow> DiscoveryOptions \<Rightarrow> Network \<Rightarrow> exn option \<times> Network" where
  "initializeInternalChannel env opts n =
     (if enabled opts then
        (case (if targets opts \<noteq> NotGiven then (given_targets (targets opts), n)
               else known_targets env n) of
           (Inl x, n1) \<Rightarrow> (Some x, n1)
         | (Inr ts, n1) \<Rightarrow> discover env opts ts n1)
      else (None, n\<lparr>discoveryService := None\<rparr>))"

text \<open>
  \<open>getContract(chaincodeId, name = '', collections)\<close>. An absent \<open>name\<close> is the empty
  string. A contract object is truthy, so \<open>!contract\<close> holds exactly when the map has no
  entry under the key.
\<close>

fun name_or_default :: "string option \<Rightarrow> string" where
  "name_or_default None = []"
| "name_or_default (Some x) = x"

definition getContract ::
  "string \<Rightarrow> string option \<Rightarrow> string list option \<Rightarrow> Network \<Rightarrow> (exn + Contract) \<times> Network" where
  "getContract chaincode name_arg colls n =
     (let name = name_or_default name_arg in
      if \<not> initialized n
      then (Inl (Error ''Unable to get contract as this network has failed to initialize''), n)
      else
        (let key = chaincode @ '':'' @ name in
         case map_of (contracts n) key of
           Some contract \<Rightarrow> (Inr contract, n)
         | None \<Rightarrow>
             (let contract = \<lparr>cid = fresh n, chaincodeId = chaincode, namespace = name,
                               collections = colls\<rparr>
              in (Inr contract,
                  n\<lparr>contracts := AList.update key contract (contracts n),
                    fresh := Suc (fresh n)\<rparr>))))"

text \<open>
  \<open>CommitListenerSession\<close> is not part of this file. Its \<open>start\<close> and \<open>close\<close> are
  parameters: each may throw, and each call is recorded in \<open>calls\<close>. What they do to the
  event services is outside this file, and neither can change the identity of an object
  or which identities \<open>new\<close> has handed out. The one effect on the network that the
  source names is that \<open>start\<close> can fire error events that trigger the removal of the
  listener: \<open>start\<close> answers with how it ends and with the listeners that the callbacks
  it has called have removed, each removal being a call of \<open>removeCommitListener\<close>.
\<close>

type_synonym session_start = "CommitListenerSession \<Rightarrow> exn option \<times> nat list"

type_synonym session_close = "CommitListenerSession \<Rightarrow> exn option"

text \<open>
  \<open>removeCommitListener(listener)\<close>: a session object is truthy, so the branch is taken
  exactly when the map has an entry; an exception of \<open>close\<close> leaves the entry.
\<close>

definition removeCommitListener :: "session_close \<Rightarrow> nat \<Rightarrow> Network \<Rightarrow> exn option \<times> Network" where
  "removeCommitListener close listener n =
     (case map_of (commitListeners n) listener of
        Some session \<Rightarrow>
          (let n1 = called [SessionClose (sid session)] n
           in case close session of
                Some x \<Rightarrow> (Some x, n1)
              | None \<Rightarrow> (None, n1\<lparr>commitListeners := AList.delete listener (commitListeners n1)\<rparr>))
      | None \<Rightarrow> (None, n))"

text \<open>
  The removals that callbacks ask for while a session starts, in order. An exception of
  such a removal is thrown into the callback; what becomes of it is part of how \<open>start\<close>
  ends.
\<close>

fun removals :: "session_close \<Rightarrow> nat list \<Rightarrow> Network \<Rightarrow> Network" where
  "removals close [] n = n"
| "removals close (listener # rest) n =
     removals close rest (snd (removeCommitListener close listener n))"

text \<open>Lines 282 to 284: the session is created and stored before it is started.\<close>

definition store_session ::
  "nat \<Rightarrow> Endorser list \<Rightarrow> string \<Rightarrow> Network \<Rightarrow> CommitListenerSession \<times> Network" where
  "store_session listener peers txid n =
     (let session = \<lparr>sid = fresh n, session_listener = listener, session_peers = peers,
                      session_transactionId = txid\<rparr>
      in (session,
          n\<lparr>commitListeners := AList.update listener session (commitListeners n),
            fresh := Suc (fresh n)\<rparr>))"

text \<open>\<open>addCommitListener(listener, peers, transactionId)\<close>\<close>

definition addCommitListener ::
  "session_start \<Rightarrow> session_close \<Rightarrow> nat \<Rightarrow> Endorser list \<Rightarrow> string \<Rightarrow> Network \<Rightarrow>
     (exn + nat) \<times> Network" where
  "addCommitListener start close listener peers txid n =
     (if map_of (commitListeners n) listener = None then
        (case store_session listener peers txid n of
           (session, n1) \<Rightarrow>
             (case start session of
                (thrown, listeners) \<Rightarrow>
                  ((case thrown of Some x \<Rightarrow> Inl x | None \<Rightarrow> Inr listener),
                   removals close listeners (called [SessionStart (sid session)] n1))))
      else (Inr listener, n))"

subsection \<open>Invariant of the commit-listener map\<close>

text \<open>
  No callback has two entries, every session is stored under the callback it was created
  for, and every session in the map is an object that has been handed out.
\<close>

definition sessions_ok :: "Network \<Rightarrow> bool" where
  "sessions_ok n =
     (distinct (map fst (commitListeners n)) \<and>
      list_all (\<lambda>(listener, session). session_listener session = listener \<and> sid session < fresh n)
        (commitListeners n))"

subsection \<open>Target selection as the specification words it\<close>

text \<open>
  The order of precedence of the specification, for a caller that gave no targets: the
  organisation's peers on the channel, otherwise the organisation's peers known to the
  client, otherwise any peer the client knows. With the peers comes the list of the
  questions asked to get them.
\<close>

fun found :: "Endorser list option \<Rightarrow> Endorser list" where
  "found None = []"
| "found (Some ts) = ts"

definition spec_precedence :: "Collaborators \<Rightarrow> Endorser list \<times> call list" where
  "spec_precedence env =
     (let org = identity_mspId env in
      if found (channel_getEndorsers env org) \<noteq> []
      then (found (channel_getEndorsers env org), [GetIdentity, ChannelGetEndorsers org])
      else if found (client_getEndorsers env (Some org)) \<noteq> []
      then (found (client_getEndorsers env (Some org)),
            [GetIdentity, ChannelGetEndorsers org, ClientGetEndorsers (Some org)])
      else (found (client_getEndorsers env None),
            [GetIdentity, ChannelGetEndorsers org, ClientGetEndorsers (Some org),
             ClientGetEndorsers None]))"

subsection \<open>Invariant of the contract map\<close>


subsection \<open>Sample values\<close>

definition two_listeners :: StubEventService where
  "two_listeners =
     snd (registerTransactionListener ''tx2'' (EventCallback []) \<lparr>unregister = Some False\<rparr>
       (snd (registerTransactionListener ''tx1'' (EventCallback []) \<lparr>unregister = None\<rparr>
          newStubEventService)))"


text \<open>A one-shot listener whose callback throws, and the stream it is registered with.\<close>

definition thrower :: StubTransactionEventListener where
  "thrower = fst (registerTransactionListener ''tx1'' (EventCallback [Throw (Error ''boom'')])
                    \<lparr>unregister = None\<rparr> newStubEventService)"

definition throwing :: StubEventService where
  "throwing = snd (registerTransactionListener ''tx1'' (EventCallback [Throw (Error ''boom'')])
                     \<lparr>unregister = None\<rparr> newStubEventService)"




definition peer1 :: Endorser where
  "peer1 = \<lparr>name = ''peer1'', mspid = ''Org1MSP'', endpoint = ''grpc://peer1'', connected = True\<rparr>"

definition peer2 :: Endorser where
  "peer2 = \<lparr>name = ''peer2'', mspid = ''Org2MSP'', endpoint = ''grpc://peer2'', connected = False\<rparr>"

definition discovery_with :: "discovery_targets \<Rightarrow> DiscoveryOptions" where
  "discovery_with ts = \<lparr>enabled = True, targets = ts, asLocalhost = False\<rparr>"

text \<open>
  Collaborators that answer with the given peers (on the channel, at the client for the
  organisation, at the client for anyone) and whose calls all succeed.
\<close>

definition answering :: "Endorser list \<Rightarrow> Endorser list \<Rightarrow> Endorser list \<Rightarrow> Collaborators" where
  "answering on_channel at_client anyone =
     \<lparr>identity_mspId = ''Org1MSP'', channel_name = ''mychannel'',
      channel_getEndorsers = (\<lambda>org. Some on_channel),
      client_getEndorsers = (\<lambda>org. case org of Some x \<Rightarrow> Some at_client | None \<Rightarrow> Some anyone),
      connect_to = (\<lambda>e. None), build_request = None, sign_request = None,
      send_request = (\<lambda>local ds. None)\<rparr>"


text \<open>
  Sessions that start and close without an exception: one whose start calls no callback,
  and one whose start fires an error at which the callback removes itself.
\<close>

definition starts :: session_start where
  "starts session = (None, [])"

definition starts_and_is_removed :: session_start where
  "starts_and_is_removed session = (None, [session_listener session])"

definition closes :: session_close where
  "closes session = None"

text \<open>A network on which callback 5 has been added.\<close>

definition listening :: Network where
  "listening = snd (addCommitListener starts closes 5 [peer1] ''tx1'' newNetwork)"

section \<open>Properties of the event service\<close>

lemma live_vacate: "live (map (vacate h) es) = filter (\<lambda>l. lid l \<noteq> h) (live es)"
  by (induction es rule: live.induct) auto

text \<open>
  C5. \<open>unregisterEventListener\<close> called with a handle that is not in the listener set
  throws the error "unregisterEventLister called for listener that is not registered"
  and leaves the stream as it was; called with a member, it returns normally and removes
  that listener and no other.
\<close>

theorem unregisterEventListener_contract:
  "(h \<notin> ids s \<longrightarrow>
      unregisterEventListener h s =
        (Some (Error ''unregisterEventLister called for listener that is not registered''), s)) \<and>
   (h \<in> ids s \<longrightarrow>
      fst (unregisterEventListener h s) = None \<and>
      live (eventListeners (snd (unregisterEventListener h s))) =
        filter (\<lambda>l. lid l \<noteq> h) (live (eventListeners s)) \<and>
      ids (snd (unregisterEventListener h s)) = ids s - {h})"
  by (auto simp: unregisterEventListener_def set_delete_def ids_def live_vacate)

theorem unregisterEventListener_contract_witness:
  "unregisterEventListener 7 two_listeners =
     (Some (Error ''unregisterEventLister called for listener that is not registered''), two_listeners) \<and>
   fst (unregisterEventListener 0 two_listeners) = None \<and>
   map lid (live (eventListeners (snd (unregisterEventListener 0 two_listeners)))) = [1] \<and>
   ids (snd (unregisterEventListener 0 two_listeners)) = {1}"
proof -
  have i: "ids two_listeners = {0, 1}"
    by (simp add: ids_def two_listeners_def registerTransactionListener_def
        newStubEventService_def set_add_def Let_def)
  have f: "map lid (filter (\<lambda>l. lid l \<noteq> 0) (live (eventListeners two_listeners))) = [1]"
    by (simp add: two_listeners_def registerTransactionListener_def
        newStubEventService_def set_add_def Let_def)
  from unregisterEventListener_contract[of 7 two_listeners]
    unregisterEventListener_contract[of 0 two_listeners] i f
  show ?thesis by auto
qed

subsection \<open>Slots and the listeners still to visit\<close>

lemma live_append: "live (xs @ ys) = live xs @ live ys"
  by (induction xs rule: live.induct) auto

lemma set_live: "set (live es) = {l. Some l \<in> set es}"
  by (induction es rule: live.induct) auto

lemma ids_waiting: "ids s = lid ` waiting 0 s"
  by (simp add: ids_def waiting_def)

lemma waiting_iff: "l \<in> waiting k s \<longleftrightarrow> Some l \<in> set (drop k (eventListeners s))"
  by (simp add: waiting_def set_live)

lemma waiting_subset: "waiting k s \<subseteq> waiting 0 s"
  using set_drop_subset[of k "eventListeners s"] by (auto simp: waiting_iff)

lemma waiting_ids: "l \<in> waiting k s \<Longrightarrow> lid l \<in> ids s"
  using waiting_subset[of k s] by (auto simp: ids_waiting)

lemma waiting_Some:
  "i < length (eventListeners s) \<Longrightarrow> eventListeners s ! i = Some l \<Longrightarrow>
   waiting i s = insert l (waiting (Suc i) s)"
  by (simp add: waiting_def Cons_nth_drop_Suc[symmetric])

lemma waiting_None:
  "i < length (eventListeners s) \<Longrightarrow> eventListeners s ! i = None \<Longrightarrow>
   waiting i s = waiting (Suc i) s"
  by (simp add: waiting_def Cons_nth_drop_Suc[symmetric])

lemma waiting_beyond: "length (eventListeners s) \<le> i \<Longrightarrow> waiting i s = {}"
  by (simp add: waiting_def)

lemma waiting_history [simp]: "waiting k (s\<lparr>history := tr\<rparr>) = waiting k s"
  by (simp add: waiting_def)

lemma ids_history [simp]: "ids (s\<lparr>history := tr\<rparr>) = ids s"
  by (simp add: ids_def)

lemma wellformed_history [simp]: "wellformed (s\<lparr>history := tr\<rparr>) = wellformed s"
  by (simp add: wellformed_def)

lemma wellformed_bound: "wellformed s \<Longrightarrow> l \<in> waiting k s \<Longrightarrow> lid l < allocated s"
  using waiting_subset[of k s] by (auto simp: wellformed_def waiting_def list_all_iff)

lemma wellformed_ids_bound: "wellformed s \<Longrightarrow> h \<in> ids s \<Longrightarrow> h < allocated s"
  by (auto simp: ids_waiting dest: wellformed_bound)

lemma wellformed_same:
  assumes "wellformed s" and "l \<in> waiting j s" and "l' \<in> waiting k s" and "lid l = lid l'"
  shows "l = l'"
proof -
  from assms(1) have "inj_on lid (set (live (eventListeners s)))"
    by (simp add: wellformed_def distinct_map)
  moreover from assms(2,3) waiting_subset have "l \<in> set (live (eventListeners s))"
    and "l' \<in> set (live (eventListeners s))"
    by (auto simp: waiting_def)
  ultimately show ?thesis using assms(4) by (auto dest: inj_onD)
qed

lemma wellformed_slot:
  assumes "wellformed s" and "i < length (eventListeners s)" and "eventListeners s ! i = Some l"
    and "l' \<in> waiting (Suc i) s"
  shows "lid l' \<noteq> lid l"
proof -
  have "eventListeners s = take i (eventListeners s) @ Some l # drop (Suc i) (eventListeners s)"
    using assms(2,3) id_take_nth_drop[of i "eventListeners s"] by simp
  then have "live (eventListeners s) =
      live (take i (eventListeners s)) @ l # live (drop (Suc i) (eventListeners s))"
    by (metis live_append live.simps(3))
  with assms(1) have "lid l \<notin> lid ` set (live (drop (Suc i) (eventListeners s)))"
    by (simp add: wellformed_def)
  with assms(4) show ?thesis unfolding waiting_def by (metis imageI)
qed

subsection \<open>Histories\<close>

lemma emitted_same [simp]: "emitted s s = []"
  by (simp add: emitted_def)

lemma emitted_append:
  "history s1 = history s @ emitted s s1 \<Longrightarrow> history s2 = history s1 @ emitted s1 s2 \<Longrightarrow>
   emitted s s2 = emitted s s1 @ emitted s1 s2"
  by (metis append.assoc append_eq_conv_conj emitted_def)

lemma emitted_logged [simp]: "emitted s (s\<lparr>history := history s @ tr\<rparr>) = tr"
  by (simp add: emitted_def)

lemma events_of_append [simp]: "events_of h (xs @ ys) = events_of h xs @ events_of h ys"
  by (simp add: events_of_def)

lemma invoked_append [simp]: "invoked (xs @ ys) = invoked xs @ invoked ys"
  by (induction xs rule: invoked.induct) auto

lemma set_invoked: "set (invoked tr) = {h. \<exists>error event. Invoked h error event \<in> set tr}"
  by (induction tr rule: invoked.induct) auto

lemma removed_append [simp]: "removed (xs @ ys) = removed xs @ removed ys"
  by (induction xs rule: removed.induct) auto

lemma set_removed: "set (removed tr) = {h. Removed h \<in> set tr}"
  by (induction tr rule: removed.induct) auto

lemma callbacks_of_append [simp]: "callbacks_of h (xs @ ys) = callbacks_of h xs @ callbacks_of h ys"
  by (induction h xs rule: callbacks_of.induct) auto

lemma never_after_removal_append:
  "never_after_removal (xs @ ys) \<longleftrightarrow>
     never_after_removal xs \<and> never_after_removal ys \<and>
     (\<forall>h. Removed h \<in> set xs \<longrightarrow> h \<notin> set (invoked ys))"
  by (induction xs rule: never_after_removal.induct) auto

subsection \<open>Every operation lets the stream evolve\<close>

lemma evolves_same: "wellformed s \<Longrightarrow> evolves s s"
  by (simp add: evolves_def)

lemma evolves_trans:
  assumes "evolves s s1" and "evolves s1 s2"
  shows "evolves s s2"
proof -
  from assms have e: "emitted s s2 = emitted s s1 @ emitted s1 s2"
    by (auto simp: evolves_def intro: emitted_append)
  have ids2: "h \<notin> ids s2" if "h \<notin> ids s1" and "h < allocated s1" for h
  proof
    assume "h \<in> ids s2"
    then obtain l where "l \<in> waiting 0 s2" and "lid l = h" by (auto simp: ids_waiting)
    with assms(2) have "l \<in> waiting 0 s1 \<or> allocated s1 \<le> h"
      by (auto simp: evolves_def)
    with that \<open>lid l = h\<close> show False by (auto simp: ids_waiting)
  qed
  have c1: "history s2 = history s @ emitted s s1 @ emitted s1 s2"
    using assms by (simp add: evolves_def)
  have c2: "allocated s \<le> allocated s2" using assms by (simp add: evolves_def)
  have c3: "length (eventListeners s) \<le> length (eventListeners s2)"
    using assms by (simp add: evolves_def)
  have c4: "wellformed s2" using assms by (simp add: evolves_def)
  have c5: "waiting k s2 \<subseteq> waiting k s \<union> {l. allocated s \<le> lid l \<and> lid l < allocated s2}" for k
  proof -
    from assms have "waiting k s2 \<subseteq> waiting k s1 \<union> {l. allocated s1 \<le> lid l \<and> lid l < allocated s2}"
      and "waiting k s1 \<subseteq> waiting k s \<union> {l. allocated s \<le> lid l \<and> lid l < allocated s1}"
      and "allocated s \<le> allocated s1" and "allocated s1 \<le> allocated s2"
      by (simp_all add: evolves_def)
    then show ?thesis by fastforce
  qed
  have c6: "Removed (lid l) \<in> set (emitted s s1 @ emitted s1 s2)"
    if "l \<in> waiting k s" and "l \<notin> waiting k s2" for k l
    using assms that unfolding evolves_def by (cases "l \<in> waiting k s1") auto
  have c7: "h < allocated s2 \<and> h \<notin> ids s2" if "Removed h \<in> set (emitted s s1 @ emitted s1 s2)" for h
  proof -
    from that consider "Removed h \<in> set (emitted s s1)" | "Removed h \<in> set (emitted s1 s2)" by auto
    then show ?thesis
    proof cases
      case 1
      with assms(1) have "h < allocated s1" and "h \<notin> ids s1" by (auto simp: evolves_def)
      with ids2 assms(2) show ?thesis by (auto simp: evolves_def)
    next
      case 2
      with assms(2) show ?thesis by (auto simp: evolves_def)
    qed
  qed
  have c8: "allocated s \<le> h \<and> h < allocated s2" if "Added h \<in> set (emitted s s1 @ emitted s1 s2)" for h
    using assms that unfolding evolves_def by fastforce
  have c9: "Added (lid l) \<in> set (emitted s s1 @ emitted s1 s2)"
    if "l \<in> waiting k s2" and "l \<notin> waiting k s" for k l
    using assms that unfolding evolves_def by (cases "l \<in> waiting k s1") auto
  have c10: "h \<in> ids s \<or> allocated s \<le> h" if "Removed h \<in> set (emitted s s1 @ emitted s1 s2)" for h
  proof -
    from that consider "Removed h \<in> set (emitted s s1)" | "Removed h \<in> set (emitted s1 s2)" by auto
    then show ?thesis
    proof cases
      case 1
      with assms(1) show ?thesis by (auto simp: evolves_def)
    next
      case 2
      with assms(2) have "h \<in> ids s1 \<or> allocated s1 \<le> h" by (auto simp: evolves_def)
      then show ?thesis
      proof
        assume "h \<in> ids s1"
        then obtain l where "l \<in> waiting 0 s1" and "lid l = h" by (auto simp: ids_waiting)
        with assms(1) have "l \<in> waiting 0 s \<or> allocated s \<le> h" by (auto simp: evolves_def)
        with \<open>lid l = h\<close> show ?thesis by (auto simp: ids_waiting)
      next
        assume "allocated s1 \<le> h"
        with assms(1) show ?thesis by (auto simp: evolves_def)
      qed
    qed
  qed
  have c11: "distinct (removed (emitted s s1 @ emitted s1 s2))"
  proof -
    have "h \<notin> set (removed (emitted s1 s2))" if "h \<in> set (removed (emitted s s1))" for h
    proof
      assume "h \<in> set (removed (emitted s1 s2))"
      with assms(2) have "h \<in> ids s1 \<or> allocated s1 \<le> h" by (auto simp: evolves_def set_removed)
      moreover from that assms(1) have "h < allocated s1" and "h \<notin> ids s1"
        by (auto simp: evolves_def set_removed)
      ultimately show False by auto
    qed
    with assms show ?thesis by (auto simp: evolves_def)
  qed
  show ?thesis
    unfolding evolves_def e using c1 c2 c3 c4 c5 c6 c7 c8 c9 c10 c11 by blast
qed

lemma evolves_logged:
  assumes "wellformed s" and "\<forall>h. x \<noteq> Removed h \<and> x \<noteq> Added h"
  shows "evolves s (s\<lparr>history := history s @ [x]\<rparr>)"
  using assms by (cases x) (auto simp: evolves_def)

lemma waiting_vacated:
  "waiting k (s\<lparr>eventListeners := map (vacate h) (eventListeners s), history := tr\<rparr>) =
     {l \<in> waiting k s. lid l \<noteq> h}"
  by (auto simp: waiting_def drop_map live_vacate)

lemma unregister_member:
  assumes "h \<in> ids s"
  shows "unregisterEventListener h s =
     (None, s\<lparr>eventListeners := map (vacate h) (eventListeners s), history := history s @ [Removed h]\<rparr>)"
  using assms by (simp add: unregisterEventListener_def set_delete_def ids_def)

lemma unregister_stranger:
  assumes "h \<notin> ids s"
  shows "unregisterEventListener h s =
     (Some (Error ''unregisterEventLister called for listener that is not registered''), s)"
  using assms by (simp add: unregisterEventListener_def set_delete_def ids_def)

lemma evolves_unregister:
  assumes "wellformed s" and "unregisterEventListener h s = (r, s')"
  shows "evolves s s'"
proof (cases "h \<in> ids s")
  case False
  with assms unregister_stranger[of h s] show ?thesis by (simp add: evolves_same)
next
  case True
  with assms(2) unregister_member[of h s]
  have s': "s' = s\<lparr>eventListeners := map (vacate h) (eventListeners s), history := history s @ [Removed h]\<rparr>"
    by simp
  have w: "waiting k s' = {l \<in> waiting k s. lid l \<noteq> h}" for k
    unfolding s' by (rule waiting_vacated)
  have e: "emitted s s' = [Removed h]" by (simp add: s' emitted_def)
  have wf: "wellformed s'"
    using assms(1) by (auto simp: s' wellformed_def live_vacate distinct_map_filter list_all_iff)
  have gone: "h \<notin> ids s'" by (auto simp: ids_waiting w)
  from True assms(1) have "h < allocated s" by (rule wellformed_ids_bound[rotated])
  then have b: "h < allocated s'" by (simp add: s')
  show ?thesis
    unfolding evolves_def e using wf gone b w True by (auto simp: s')
qed

lemma emitted_unregister:
  "unregisterEventListener h s = (r, s') \<Longrightarrow> emitted s s' = (if h \<in> ids s then [Removed h] else [])"
  using unregister_member[of h s] unregister_stranger[of h s] by (auto simp: emitted_def)

lemma register_wellformed:
  assumes "wellformed s"
  shows "registerTransactionListener txid cb opts s =
     (\<lparr>lid = allocated s, transactionId = txid, callback = cb, options = opts\<rparr>,
      s\<lparr>eventListeners := eventListeners s @
           [Some \<lparr>lid = allocated s, transactionId = txid, callback = cb, options = opts\<rparr>],
        allocated := Suc (allocated s),
        history := history s @ [Added (allocated s)]\<rparr>)"
proof -
  from assms have "allocated s \<notin> set (map lid (live (eventListeners s)))"
    by (auto simp: wellformed_def list_all_iff)
  then show ?thesis
    by (simp add: registerTransactionListener_def set_add_def Let_def)
qed

lemma waiting_appended:
  "waiting k (s\<lparr>eventListeners := eventListeners s @ [Some l], allocated := a, history := tr\<rparr>) =
     (if k \<le> length (eventListeners s) then insert l (waiting k s) else {})"
  by (auto simp: waiting_def live_append)

lemma evolves_register:
  assumes "wellformed s" and "registerTransactionListener txid cb opts s = (l, s')"
  shows "evolves s s'"
proof -
  define n where "n = \<lparr>lid = allocated s, transactionId = txid, callback = cb, options = opts\<rparr>"
  from assms(2) have s': "s' = s\<lparr>eventListeners := eventListeners s @ [Some n], allocated := Suc (allocated s),
        history := history s @ [Added (allocated s)]\<rparr>"
    unfolding register_wellformed[OF assms(1), of txid cb opts] n_def by auto
  have w: "waiting k s' = (if k \<le> length (eventListeners s) then insert n (waiting k s) else {})" for k
    unfolding s' by (rule waiting_appended)
  have e: "emitted s s' = [Added (allocated s)]" by (simp add: s' emitted_def)
  have n: "lid n = allocated s" by (simp add: n_def)
  have wf: "wellformed s'"
    using assms(1) by (auto simp: s' wellformed_def live_append n list_all_iff)
  have beyond: "waiting k s = {}" if "\<not> k \<le> length (eventListeners s)" for k
    using that by (simp add: waiting_beyond)
  show ?thesis
    unfolding evolves_def e using wf w n beyond by (auto simp: s')
qed

lemma evolves_perform:
  assumes "wellformed s" and "perform a s = (r, s')"
  shows "evolves s s'"
proof (cases a)
  case (Register txid cb opts)
  with assms(2) have "registerTransactionListener txid cb opts s =
      (fst (registerTransactionListener txid cb opts s), s')"
    by (auto simp: prod_eq_iff)
  with assms(1) show ?thesis by (rule evolves_register)
next
  case (Unregister h)
  with assms show ?thesis by (auto intro: evolves_unregister)
next
  case (Throw x)
  with assms show ?thesis by (auto intro: evolves_same)
qed

lemma evolves_wellformed: "evolves s s' \<Longrightarrow> wellformed s'"
  by (simp add: evolves_def)

lemma evolves_run:
  assumes "wellformed s" and "run as s = (r, s')"
  shows "evolves s s'"
  using assms
proof (induction as arbitrary: s)
  case Nil
  then show ?case by (simp add: evolves_same)
next
  case (Cons a as)
  obtain r1 s1 where p: "perform a s = (r1, s1)" by (cases "perform a s")
  with Cons.prems(1) have e1: "evolves s s1" by (rule evolves_perform)
  show ?case
  proof (cases r1)
    case None
    with Cons.prems p have "run as s1 = (r, s')" by simp
    with Cons.IH[OF evolves_wellformed[OF e1]] have "evolves s1 s'" by simp
    with e1 show ?thesis by (rule evolves_trans)
  next
    case (Some x)
    with Cons.prems p have "s' = s1" by simp
    with e1 show ?thesis by simp
  qed
qed

lemma emitted_perform:
  assumes "wellformed s" and "perform a s = (r, s')"
  shows "list_all membership (emitted s s')"
proof (cases a)
  case (Register txid cb opts)
  with assms register_wellformed[OF assms(1), of txid cb opts] show ?thesis
    by (auto simp: emitted_def)
next
  case (Unregister h)
  with assms emitted_unregister[of h s r s'] show ?thesis by auto
next
  case (Throw x)
  with assms show ?thesis by auto
qed

lemma emitted_run:
  assumes "wellformed s" and "run as s = (r, s')"
  shows "list_all membership (emitted s s')"
  using assms
proof (induction as arbitrary: s)
  case Nil
  then show ?case by simp
next
  case (Cons a as)
  obtain r1 s1 where p: "perform a s = (r1, s1)" by (cases "perform a s")
  with Cons.prems(1) have e1: "evolves s s1" by (rule evolves_perform)
  from Cons.prems(1) p have m1: "list_all membership (emitted s s1)" by (rule emitted_perform)
  show ?case
  proof (cases r1)
    case None
    with Cons.prems p have r: "run as s1 = (r, s')" by simp
    from evolves_run[OF evolves_wellformed[OF e1] r] have e2: "evolves s1 s'" .
    from Cons.IH[OF evolves_wellformed[OF e1] r] have "list_all membership (emitted s1 s')" .
    moreover from e1 e2 have "emitted s s' = emitted s s1 @ emitted s1 s'"
      by (auto simp: evolves_def intro: emitted_append)
    ultimately show ?thesis using m1 by simp
  next
    case (Some x)
    with Cons.prems p have "s' = s1" by simp
    with m1 show ?thesis by simp
  qed
qed

subsection \<open>One call of \<open>onEvent\<close>\<close>

lemma onEvent_runs_callback:
  assumes "matches l error event = Some True" and "one_shot l \<longrightarrow> lid l \<in> ids s"
  shows "onEvent l error event s = run (script (callback l)) (at_callback l error event s)"
proof (cases "one_shot l")
  case True
  with assms(2) have "lid l \<in> ids (s\<lparr>history := history s @ [Invoked (lid l) error event]\<rparr>)" by simp
  from unregister_member[OF this] True show ?thesis
    by (simp add: onEvent_Some_True[OF assms(1)] at_callback_def one_shot_def)
next
  case False
  then show ?thesis
    by (simp add: onEvent_Some_True[OF assms(1)] at_callback_def one_shot_def)
qed

lemma onEvent_not_member:
  assumes "matches l error event = Some True" and "one_shot l" and "lid l \<notin> ids s"
  shows "onEvent l error event s =
     (Some (Error ''unregisterEventLister called for listener that is not registered''),
      s\<lparr>history := history s @ [Invoked (lid l) error event]\<rparr>)"
proof -
  from assms(3) have "lid l \<notin> ids (s\<lparr>history := history s @ [Invoked (lid l) error event]\<rparr>)" by simp
  from unregister_stranger[OF this] assms(2) show ?thesis
    by (simp add: onEvent_Some_True[OF assms(1)] one_shot_def)
qed

lemma evolves_at_callback:
  assumes "wellformed s" and "one_shot l \<longrightarrow> lid l \<in> ids s"
  shows "evolves s (at_callback l error event s)"
proof (cases "one_shot l")
  case True
  define s0 where "s0 = s\<lparr>history := history s @ [Invoked (lid l) error event]\<rparr>"
  define s1 where "s1 = s0\<lparr>eventListeners := map (vacate (lid l)) (eventListeners s0),
      history := history s0 @ [Removed (lid l)]\<rparr>"
  define s2 where "s2 = s1\<lparr>history := history s1 @ [Called (lid l) error event]\<rparr>"
  have e0: "evolves s s0" unfolding s0_def using assms(1) by (intro evolves_logged) auto
  from True assms(2) have "lid l \<in> ids s0" by (simp add: s0_def)
  from unregister_member[OF this] have "unregisterEventListener (lid l) s0 = (None, s1)"
    by (simp add: s1_def)
  with evolves_wellformed[OF e0] have e1: "evolves s0 s1" by (rule evolves_unregister)
  have e2: "evolves s1 s2" unfolding s2_def using evolves_wellformed[OF e1]
    by (intro evolves_logged) auto
  have "at_callback l error event s = s2"
    using True by (simp add: at_callback_def s2_def s1_def s0_def)
  with evolves_trans[OF evolves_trans[OF e0 e1] e2] show ?thesis by simp
next
  case False
  define s0 where "s0 = s\<lparr>history := history s @ [Invoked (lid l) error event]\<rparr>"
  define s2 where "s2 = s0\<lparr>history := history s0 @ [Called (lid l) error event]\<rparr>"
  have e0: "evolves s s0" unfolding s0_def using assms(1) by (intro evolves_logged) auto
  have e2: "evolves s0 s2" unfolding s2_def using evolves_wellformed[OF e0]
    by (intro evolves_logged) auto
  have "at_callback l error event s = s2"
    using False by (simp add: at_callback_def s2_def s0_def)
  with evolves_trans[OF e0 e2] show ?thesis by simp
qed

lemma emitted_at_callback:
  "emitted s (at_callback l error event s) =
     Invoked (lid l) error event # (if one_shot l then [Removed (lid l)] else []) @ [Called (lid l) error event]"
  by (simp add: at_callback_def emitted_def)

lemma evolves_emitted:
  "evolves s s1 \<Longrightarrow> evolves s1 s2 \<Longrightarrow> emitted s s2 = emitted s s1 @ emitted s1 s2"
  by (auto simp: evolves_def intro: emitted_append)

text \<open>
  Whatever the listener and its callback do, \<open>onEvent\<close> lets the stream evolve, and what
  it adds to the history starts with the entry into \<open>onEvent\<close>, has at most the one call
  of the callback, and otherwise only additions and removals.
\<close>

lemma onEvent_general:
  assumes "wellformed s" and "onEvent l error event s = (r, s')"
  shows "evolves s s' \<and>
         (\<exists>rest. emitted s s' = Invoked (lid l) error event # rest \<and>
                 list_all (\<lambda>x. membership x \<or> x = Called (lid l) error event) rest)"
proof (cases "matches l error event")
  case None
  with assms have "s' = s\<lparr>history := history s @ [Invoked (lid l) error event]\<rparr>" by (simp add: onEvent_None)
  with assms(1) evolves_logged[of s "Invoked (lid l) error event"] show ?thesis by simp
next
  case (Some m)
  show ?thesis
  proof (cases m)
    case False
    with Some assms have "s' = s\<lparr>history := history s @ [Invoked (lid l) error event]\<rparr>"
      by (simp add: onEvent_Some_False)
    with assms(1) evolves_logged[of s "Invoked (lid l) error event"] show ?thesis by simp
  next
    case True
    with Some have m: "matches l error event = Some True" by simp
    show ?thesis
    proof (cases "one_shot l \<and> lid l \<notin> ids s")
      case True
      with assms onEvent_not_member[OF m, of s]
      have "s' = s\<lparr>history := history s @ [Invoked (lid l) error event]\<rparr>" by simp
      with assms(1) evolves_logged[of s "Invoked (lid l) error event"] show ?thesis by simp
    next
      case False
      then have o: "one_shot l \<longrightarrow> lid l \<in> ids s" by simp
      define s1 where "s1 = at_callback l error event s"
      from assms(2) onEvent_runs_callback[OF m o] have r: "run (script (callback l)) s1 = (r, s')"
        by (simp add: s1_def)
      from evolves_at_callback[OF assms(1) o] have e1: "evolves s s1" by (simp add: s1_def)
      from evolves_run[OF evolves_wellformed[OF e1] r] have e2: "evolves s1 s'" .
      from emitted_run[OF evolves_wellformed[OF e1] r] have m2: "list_all membership (emitted s1 s')" .
      have "emitted s s' = emitted s s1 @ emitted s1 s'" using e1 e2 by (rule evolves_emitted)
      then have "emitted s s' = Invoked (lid l) error event #
          ((if one_shot l then [Removed (lid l)] else []) @ [Called (lid l) error event] @ emitted s1 s')"
        by (simp add: s1_def emitted_at_callback)
      moreover have "list_all (\<lambda>x. membership x \<or> x = Called (lid l) error event)
          ((if one_shot l then [Removed (lid l)] else []) @ [Called (lid l) error event] @ emitted s1 s')"
        using m2 by (auto simp: list_all_iff)
      ultimately show ?thesis using evolves_trans[OF e1 e2] by blast
    qed
  qed
qed

subsection \<open>A whole dispatch\<close>

lemma dispatched_done:
  "wellformed s \<Longrightarrow> length (eventListeners s) \<le> i \<Longrightarrow> dispatched error event i s None s"
  by (simp add: dispatched_def evolves_same waiting_beyond)

lemma dispatched_skip:
  assumes "i < length (eventListeners s)" and "eventListeners s ! i = None"
    and "dispatched error event (Suc i) s r s'"
  shows "dispatched error event i s r s'"
  using assms(3) unfolding dispatched_def waiting_None[OF assms(1,2)] .

lemma no_invoked: "invoked tr = [] \<Longrightarrow> Invoked h error event \<notin> set tr"
  using set_invoked[of tr] by auto

lemma never_after_removal_quiet: "invoked tr = [] \<Longrightarrow> never_after_removal tr"
  by (induction tr rule: never_after_removal.induct) (auto dest: no_invoked)

lemma invoked_members: "list_all membership tr \<Longrightarrow> invoked tr = []"
  by (induction tr rule: invoked.induct) auto

lemma callbacks_of_members: "list_all membership tr \<Longrightarrow> callbacks_of h tr = []"
  by (induction h tr rule: callbacks_of.induct) auto

lemma invoked_expected [simp]: "invoked (expected l error event) = [lid l]"
  by (simp add: expected_def)

lemma callbacks_of_expected:
  "callbacks_of h (expected l error event) =
     (if h = lid l \<and> matches l error event = Some True then [(error, event)] else [])"
  by (simp add: expected_def)

lemma removed_expected:
  "Removed h \<in> set (expected l error event) \<longleftrightarrow>
     h = lid l \<and> matches l error event = Some True \<and> one_shot l"
  by (auto simp: expected_def)

lemma never_after_removal_expected:
  "invoked tr = [] \<Longrightarrow> never_after_removal (expected l error event @ tr)"
  by (simp add: expected_def never_after_removal_quiet)

lemma shape_expected:
  "list_all membership tr \<Longrightarrow>
   list_all (\<lambda>x. membership x \<or> (\<exists>h. x = Invoked h error event) \<or> (\<exists>h. x = Called h error event))
     (expected l error event @ tr)"
  by (auto simp: expected_def list_all_iff)

text \<open>
  \<open>onEvent\<close> on a listener that is in the set: the history gets what is expected of
  the listener and then what its callback does to the set, whether \<open>onEvent\<close> returns
  or throws.
\<close>

lemma onEvent_member:
  assumes wf: "wellformed s" and l: "l \<in> waiting k s" and on: "onEvent l error event s = (r, s')"
  shows "evolves s s' \<and>
         (\<exists>tail. emitted s s' = expected l error event @ tail \<and> list_all membership tail)"
proof (cases "matches l error event = Some True")
  case False
  have "s' = s\<lparr>history := history s @ [Invoked (lid l) error event]\<rparr>"
  proof (cases "matches l error event")
    case None
    with on show ?thesis by (simp add: onEvent_None)
  next
    case (Some m)
    with False have "matches l error event = Some False" by simp
    with on show ?thesis by (simp add: onEvent_Some_False)
  qed
  moreover have "evolves s (s\<lparr>history := history s @ [Invoked (lid l) error event]\<rparr>)"
    using wf by (intro evolves_logged) auto
  ultimately show ?thesis using False by (simp add: expected_def)
next
  case True
  define s0 where "s0 = at_callback l error event s"
  from l have mo: "one_shot l \<longrightarrow> lid l \<in> ids s" by (simp add: waiting_ids)
  from evolves_at_callback[OF wf mo] have e0: "evolves s s0" by (simp add: s0_def)
  from on onEvent_runs_callback[OF True mo] have r: "run (script (callback l)) s0 = (r, s')"
    by (simp add: s0_def)
  from evolves_run[OF evolves_wellformed[OF e0] r] have e1: "evolves s0 s'" .
  from emitted_run[OF evolves_wellformed[OF e0] r] have m: "list_all membership (emitted s0 s')" .
  have "emitted s s' = expected l error event @ emitted s0 s'"
    using evolves_emitted[OF e0 e1] True by (simp add: s0_def emitted_at_callback expected_def)
  with evolves_trans[OF e0 e1] m show ?thesis by blast
qed

lemma dispatched_thrown:
  assumes wf: "wellformed s" and i: "i < length (eventListeners s)"
    and slot: "eventListeners s ! i = Some l0"
    and on: "onEvent l0 error event s = (Some x, s')"
  shows "dispatched error event i s (Some x) s'"
proof -
  have w: "waiting i s = insert l0 (waiting (Suc i) s)" using i slot by (rule waiting_Some)
  then have l0: "l0 \<in> waiting i s" by simp
  from onEvent_member[OF wf l0 on] obtain tail where e: "evolves s s'"
    and em: "emitted s s' = expected l0 error event @ tail"
    and tail: "list_all membership tail"
    by blast
  from tail have it: "invoked tail = []" by (rule invoked_members)
  have ct: "callbacks_of h tail = []" for h using tail by (rule callbacks_of_members)
  have other: "lid l \<noteq> lid l0" if "l \<in> waiting i s" and "l \<noteq> l0" for l
    using that w wellformed_slot[OF wf i slot, of l] by auto
  have c7: "callbacks_of (lid l) (expected l0 error event @ tail) =
      (if lid l \<in> set (invoked (expected l0 error event @ tail)) \<and> matches l error event = Some True
       then [(error, event)] else [])" if "l \<in> waiting i s" for l
    using other[OF that] by (cases "l = l0") (auto simp: callbacks_of_expected ct it)
  have c8: "Removed (lid l) \<in> set (expected l0 error event @ tail)"
    if "l \<in> waiting i s" and "lid l \<in> set (invoked (expected l0 error event @ tail))"
      and "matches l error event = Some True" and "one_shot l" for l
  proof -
    from that(2) have "lid l = lid l0" by (simp add: it)
    with other[OF that(1)] have "l = l0" by blast
    with that(3,4) show ?thesis by (simp add: removed_expected)
  qed
  have c9: "callbacks_of h (expected l0 error event @ tail) = []"
    if "h \<notin> lid ` waiting i s" for h
    using that l0 by (auto simp: callbacks_of_expected ct)
  show ?thesis
    unfolding dispatched_def em
    using e it l0 never_after_removal_expected[OF it] shape_expected[OF tail] c7 c8 c9
    by simp
qed

lemma dispatched_step:
  assumes wf: "wellformed s" and i: "i < length (eventListeners s)"
    and slot: "eventListeners s ! i = Some l0"
    and on: "onEvent l0 error event s = (None, s1)"
    and rec: "dispatched error event (Suc i) s1 r s'"
  shows "dispatched error event i s r s'"
proof -
  have w: "waiting i s = insert l0 (waiting (Suc i) s)" using i slot by (rule waiting_Some)
  then have l0: "l0 \<in> waiting i s" by simp
  from onEvent_member[OF wf l0 on] obtain tail where e1: "evolves s s1"
    and em1: "emitted s s1 = expected l0 error event @ tail"
    and tail: "list_all membership tail"
    by blast
  from rec have e2: "evolves s1 s'" by (simp add: dispatched_def)
  define em2 where "em2 = emitted s1 s'"
  define ex where "ex = expected l0 error event"
  have em: "emitted s s' = ex @ tail @ em2"
    using evolves_emitted[OF e1 e2] em1 by (simp add: em2_def ex_def)
  from tail have it: "invoked tail = []" by (rule invoked_members)
  have ct: "callbacks_of h tail = []" for h using tail by (rule callbacks_of_members)
  have inv: "invoked (ex @ tail @ em2) = lid l0 # invoked em2" by (simp add: ex_def it)
  have bound0: "lid l0 < allocated s" using wf l0 by (rule wellformed_bound)
  have a1: "allocated s \<le> allocated s1" using e1 by (simp add: evolves_def)
  have old: "l \<in> waiting k s" if "l \<in> waiting k s1" and "lid l < allocated s" for l k
    using that e1 unfolding evolves_def by fastforce
  have new2: "allocated s1 \<le> h" if "Added h \<in> set em2" for h
    using that e2 unfolding evolves_def em2_def by blast
  have inv2: "h \<in> lid ` waiting (Suc i) s1 \<or> Added h \<in> set em2" if "h \<in> set (invoked em2)" for h
    using that rec unfolding dispatched_def em2_def by blast
  have other: "lid l \<noteq> lid l0" if "l \<in> waiting (Suc i) s" for l
    using that wellformed_slot[OF wf i slot, of l] by auto
  have later: "l \<in> waiting (Suc i) s1"
    if "l \<in> waiting (Suc i) s" and "lid l \<in> set (invoked em2)" for l
  proof -
    from that(1) wf have b: "lid l < allocated s" by (rule wellformed_bound[rotated])
    from inv2[OF that(2)] new2 b a1 have "lid l \<in> lid ` waiting (Suc i) s1" by fastforce
    then obtain l' where l': "l' \<in> waiting (Suc i) s1" and same: "lid l' = lid l" by (metis imageE)
    from old[OF l'] same b have "l' \<in> waiting (Suc i) s" by simp
    from wellformed_same[OF wf this that(1) same] l' show ?thesis by simp
  qed
  have not_later: "h \<notin> lid ` waiting (Suc i) s1"
    if "h < allocated s" and "h \<notin> lid ` waiting (Suc i) s" for h
  proof
    assume "h \<in> lid ` waiting (Suc i) s1"
    then obtain l where "l \<in> waiting (Suc i) s1" and "lid l = h" by (metis imageE)
    with old[of l "Suc i"] that show False by (metis imageI)
  qed
  have l0_not_before: "lid l0 \<notin> lid ` waiting (Suc i) s"
    using other by (metis imageE)
  have not_again: "lid l0 \<notin> set (invoked em2)"
  proof
    assume "lid l0 \<in> set (invoked em2)"
    from inv2[OF this] new2 bound0 a1 not_later[OF bound0 l0_not_before] show False by fastforce
  qed
  have quiet2: "callbacks_of h em2 = []" if "h < allocated s" and "h \<notin> lid ` waiting (Suc i) s" for h
    using rec not_later[OF that] that(1) a1 unfolding dispatched_def em2_def by simp
  have c1: "evolves s s'" using e1 e2 by (rule evolves_trans)
  have c2: "distinct (invoked (ex @ tail @ em2))"
    using rec not_again unfolding inv by (simp add: dispatched_def em2_def)
  have c3: "h \<in> lid ` waiting i s \<or> Added h \<in> set (ex @ tail @ em2)"
    if "h \<in> set (invoked (ex @ tail @ em2))" for h
  proof -
    from that consider "h = lid l0" | "h \<in> set (invoked em2)" unfolding inv by auto
    then show ?thesis
    proof cases
      case 1
      then show ?thesis by (simp add: w)
    next
      case 2
      from inv2[OF this] show ?thesis
      proof
        assume "h \<in> lid ` waiting (Suc i) s1"
        then obtain l' where l': "l' \<in> waiting (Suc i) s1" and h: "h = lid l'" by (metis imageE)
        show ?thesis
        proof (cases "l' \<in> waiting (Suc i) s")
          case True
          with h show ?thesis by (auto simp: w)
        next
          case False
          with l' e1 have "Added (lid l') \<in> set (emitted s s1)" unfolding evolves_def by blast
          with h show ?thesis by (auto simp: em1 ex_def)
        qed
      qed simp
    qed
  qed
  have cross: "h \<notin> set (invoked em2)" if "Removed h \<in> set (ex @ tail)" for h
  proof
    assume "h \<in> set (invoked em2)"
    from inv2[OF this] have "h \<in> ids s1 \<or> allocated s1 \<le> h"
      using new2 waiting_ids[of _ "Suc i" s1] by blast
    moreover from that have "Removed h \<in> set (emitted s s1)" by (simp add: em1 ex_def)
    with e1 have "h < allocated s1 \<and> h \<notin> ids s1"
      unfolding evolves_def by blast
    ultimately show False by simp
  qed
  have "never_after_removal (ex @ tail)"
    unfolding ex_def using it by (rule never_after_removal_expected)
  with rec cross have c4: "never_after_removal (ex @ tail @ em2)"
    using never_after_removal_append[of "ex @ tail" em2] by (simp add: dispatched_def em2_def)
  have c5: "lid l \<in> set (invoked (ex @ tail @ em2)) \<or> Removed (lid l) \<in> set (ex @ tail @ em2)"
    if "r = None" and "l \<in> waiting i s" for l
  proof (cases "l = l0")
    case True
    then show ?thesis by (simp add: ex_def)
  next
    case False
    with that w have before: "l \<in> waiting (Suc i) s" by simp
    show ?thesis
    proof (cases "l \<in> waiting (Suc i) s1")
      case True
      with rec that(1) show ?thesis unfolding dispatched_def em2_def by auto
    next
      case False
      with before e1 have "Removed (lid l) \<in> set (emitted s s1)" unfolding evolves_def by blast
      then show ?thesis by (auto simp: em1 ex_def)
    qed
  qed
  have c6: "list_all (\<lambda>x. membership x \<or> (\<exists>h. x = Invoked h error event) \<or> (\<exists>h. x = Called h error event))
       (ex @ tail @ em2)"
    using rec shape_expected[OF tail, of error event l0]
    by (simp add: dispatched_def em2_def ex_def)
  have c7: "callbacks_of (lid l) (ex @ tail @ em2) =
      (if lid l \<in> set (invoked (ex @ tail @ em2)) \<and> matches l error event = Some True
       then [(error, event)] else [])" if "l \<in> waiting i s" for l
  proof (cases "l = l0")
    case True
    from quiet2[OF bound0 l0_not_before] show ?thesis
      by (simp add: True it ct ex_def callbacks_of_expected)
  next
    case False
    with that w have before: "l \<in> waiting (Suc i) s" by simp
    from other[OF before] have ne: "lid l \<noteq> lid l0" .
    from before wf have b: "lid l < allocated s" by (rule wellformed_bound[rotated])
    have first: "callbacks_of (lid l) (ex @ tail @ em2) = callbacks_of (lid l) em2"
      using ne by (simp add: ex_def callbacks_of_expected ct)
    show ?thesis
    proof (cases "l \<in> waiting (Suc i) s1")
      case True
      with rec have "callbacks_of (lid l) em2 =
          (if lid l \<in> set (invoked em2) \<and> matches l error event = Some True
           then [(error, event)] else [])"
        unfolding dispatched_def em2_def by blast
      with first ne show ?thesis by (simp add: ex_def it)
    next
      case False
      with later[OF before] have ni: "lid l \<notin> set (invoked em2)" by blast
      have "lid l \<notin> lid ` waiting (Suc i) s1"
      proof
        assume "lid l \<in> lid ` waiting (Suc i) s1"
        then obtain l' where l': "l' \<in> waiting (Suc i) s1" and same: "lid l' = lid l" by (metis imageE)
        from old[OF l'] same b have "l' \<in> waiting (Suc i) s" by simp
        from wellformed_same[OF wf this before same] l' False show False by simp
      qed
      with rec b a1 have "callbacks_of (lid l) em2 = []"
        unfolding dispatched_def em2_def by simp
      with first ne ni show ?thesis by (simp add: ex_def it)
    qed
  qed
  have c8: "Removed (lid l) \<in> set (ex @ tail @ em2)"
    if "l \<in> waiting i s" and "lid l \<in> set (invoked (ex @ tail @ em2))"
      and "matches l error event = Some True" and "one_shot l" for l
  proof (cases "l = l0")
    case True
    with that(3,4) show ?thesis by (simp add: ex_def removed_expected)
  next
    case False
    with that(1) w have before: "l \<in> waiting (Suc i) s" by simp
    from that(2) other[OF before] have "lid l \<in> set (invoked em2)" by (simp add: ex_def it)
    from later[OF before this] rec this that(3,4) have "Removed (lid l) \<in> set em2"
      unfolding dispatched_def em2_def by blast
    then show ?thesis by simp
  qed
  have c9: "callbacks_of h (ex @ tail @ em2) = []"
    if "h < allocated s" and "h \<notin> lid ` waiting i s" for h
  proof -
    from that(2) w have ne: "h \<noteq> lid l0" and nl: "h \<notin> lid ` waiting (Suc i) s" by auto
    from quiet2[OF that(1) nl] ne show ?thesis
      by (simp add: ex_def callbacks_of_expected ct)
  qed
  show ?thesis
    unfolding dispatched_def em
    by (intro conjI ballI allI impI;
        (rule c1 c2 c4 c6 | erule c3 c7 | erule (1) c5 c9 | erule (3) c8))
qed

lemma forEach_dispatched:
  "wellformed s \<Longrightarrow> forEach_onEvent error event i s = (r, s') \<Longrightarrow> dispatched error event i s r s'"
proof (induction error event i s arbitrary: r s' rule: forEach_onEvent.induct)
  case (1 error event index s)
  show ?case
  proof (cases "index < length (eventListeners s)")
    case False
    with "1.prems" have "r = None" and "s' = s" by (simp_all add: forEach_onEvent.simps[of _ _ index s])
    with False "1.prems"(1) show ?thesis by (simp add: dispatched_done)
  next
    case True
    show ?thesis
    proof (cases "eventListeners s ! index")
      case None
      with True "1.prems" have "forEach_onEvent error event (Suc index) s = (r, s')"
        by (simp add: forEach_onEvent.simps[of _ _ index s])
      from "1.IH"(1)[OF True None "1.prems"(1) this] True None show ?thesis
        by (rule dispatched_skip[rotated 2])
    next
      case (Some l)
      obtain r1 s1 where on: "onEvent l error event s = (r1, s1)"
        by (cases "onEvent l error event s")
      show ?thesis
      proof (cases r1)
        case None
        with True Some on "1.prems" have f: "forEach_onEvent error event (Suc index) s1 = (r, s')"
          by (simp add: forEach_onEvent.simps[of _ _ index s])
        from onEvent_general[OF "1.prems"(1) on] have "wellformed s1"
          by (auto dest: evolves_wellformed)
        from "1.IH"(2)[OF True Some on[symmetric] None this f]
        have "dispatched error event (Suc index) s1 r s'" .
        with "1.prems"(1) True Some on[unfolded None] show ?thesis by (rule dispatched_step)
      next
        case (Some x)
        with True \<open>eventListeners s ! index = Some l\<close> on "1.prems" have "r = Some x" and "s' = s1"
          by (simp_all add: forEach_onEvent.simps[of _ _ index s])
        with "1.prems"(1) True \<open>eventListeners s ! index = Some l\<close> on Some show ?thesis
          by (auto intro: dispatched_thrown)
      qed
    qed
  qed
qed

section \<open>Dispatch of events and errors\<close>

lemma sendEvent_dispatched:
  "wellformed s \<Longrightarrow> dispatched None (Some e) 0 s (fst (sendEvent e s)) (snd (sendEvent e s))"
  by (rule forEach_dispatched) (simp_all add: sendEvent_def)

lemma sendError_dispatched:
  "wellformed s \<Longrightarrow> dispatched (Some x) None 0 s (fst (sendError x s)) (snd (sendError x s))"
  by (rule forEach_dispatched) (simp_all add: sendError_def)

text \<open>
  The streams "built through the operations" of the statements below: the new stream is
  well formed, and every operation keeps a stream so.
\<close>

lemma wellformed_new: "wellformed newStubEventService"
  by (simp add: wellformed_def newStubEventService_def)

lemma wellformed_kept:
  assumes "wellformed s"
  shows "wellformed (snd (registerTransactionListener txid cb opts s))"
    and "wellformed (snd (unregisterEventListener h s))"
    and "wellformed (snd (sendEvent e s))"
    and "wellformed (snd (sendError x s))"
proof -
  show "wellformed (snd (registerTransactionListener txid cb opts s))"
    using evolves_register[OF assms, of txid cb opts] by (auto dest: evolves_wellformed simp: prod_eq_iff)
  show "wellformed (snd (unregisterEventListener h s))"
    using evolves_unregister[OF assms, of h] by (auto dest: evolves_wellformed simp: prod_eq_iff)
  show "wellformed (snd (sendEvent e s))"
    using sendEvent_dispatched[OF assms, of e] by (auto simp: dispatched_def dest: evolves_wellformed)
  show "wellformed (snd (sendError x s))"
    using sendError_dispatched[OF assms, of x] by (auto simp: dispatched_def dest: evolves_wellformed)
qed




text \<open>
  C9. On a stream built through its operations, every callback called during
  \<open>sendEvent(e)\<close> is called with the event \<open>e\<close> and an undefined error, and every
  callback called during \<open>sendError(x)\<close> with the error \<open>x\<close> and an undefined event:
  exactly one of the two arguments is defined in every call.
\<close>

theorem callback_gets_error_or_event:
  assumes "wellformed s"
  shows "(\<forall>h a b. Called h a b \<in> set (emitted s (snd (sendEvent e s))) \<longrightarrow>
            a = None \<and> b = Some e \<and> (a = None) \<noteq> (b = None)) \<and>
         (\<forall>h a b. Called h a b \<in> set (emitted s (snd (sendError x s))) \<longrightarrow>
            a = Some x \<and> b = None \<and> (a = None) \<noteq> (b = None))"
proof -
  from sendEvent_dispatched[OF assms, of e]
  have "list_all (\<lambda>x. membership x \<or> (\<exists>h. x = Invoked h None (Some e)) \<or>
                     (\<exists>h. x = Called h None (Some e))) (emitted s (snd (sendEvent e s)))"
    by (simp add: dispatched_def)
  moreover from sendError_dispatched[OF assms, of x]
  have "list_all (\<lambda>y. membership y \<or> (\<exists>h. y = Invoked h (Some x) None) \<or>
                     (\<exists>h. y = Called h (Some x) None)) (emitted s (snd (sendError x s)))"
    by (simp add: dispatched_def)
  ultimately show ?thesis by (auto simp: list_all_iff)
qed

theorem callback_gets_error_or_event_witness:
  "wellformed two_listeners \<and>
   callbacks_of 0 (emitted two_listeners (snd (sendEvent (EventInfo ''tx1'') two_listeners))) =
     [(None, Some (EventInfo ''tx1''))] \<and>
   callbacks_of 1 (emitted two_listeners (snd (sendError (Error ''disconnect'') two_listeners))) =
     [(Some (Error ''disconnect''), None)] \<and>
   Called 0 None (Some (EventInfo ''tx1'')) \<in>
     set (emitted two_listeners (snd (sendEvent (EventInfo ''tx1'') two_listeners))) \<and>
   Called 1 (Some (Error ''disconnect'')) None \<in>
     set (emitted two_listeners (snd (sendError (Error ''disconnect'') two_listeners)))"
proof -
  have w: "wellformed two_listeners" by code_simp
  have a: "callbacks_of 0 (emitted two_listeners (snd (sendEvent (EventInfo ''tx1'') two_listeners))) =
     [(None, Some (EventInfo ''tx1''))]" by code_simp
  have b: "callbacks_of 1 (emitted two_listeners (snd (sendError (Error ''disconnect'') two_listeners))) =
     [(Some (Error ''disconnect''), None)]" by code_simp
  have c: "Called 0 None (Some (EventInfo ''tx1'')) \<in>
     set (emitted two_listeners (snd (sendEvent (EventInfo ''tx1'') two_listeners)))" by code_simp
  have d: "Called 1 (Some (Error ''disconnect'')) None \<in>
     set (emitted two_listeners (snd (sendError (Error ''disconnect'') two_listeners)))" by code_simp
  from callback_gets_error_or_event[OF w, of "EventInfo ''tx1''" "Error ''disconnect''"] c d
  have x: "((None :: exn option) = None) \<noteq> (Some (EventInfo ''tx1'') = None) \<and>
           (Some (Error ''disconnect'') = None) \<noteq> ((None :: EventInfo option) = None)"
    by blast
  from w a b c d x show ?thesis by blast
qed

text \<open>
  C3. A registered one-shot listener (\<open>unregister\<close> not \<open>false\<close>) that matches is
  removed from the set before its callback is called: what \<open>onEvent\<close> adds to the
  history starts with the entry, the removal and then the call. The callback is called
  once, and when \<open>onEvent\<close> is over, whether the callback returned or threw, the listener
  is not in the set.
\<close>

theorem unregistered_before_callback:
  assumes "wellformed s" and "l \<in> waiting 0 s" and "unregister (options l) \<noteq> Some False"
    and "matches l error event = Some True"
  shows "take 3 (emitted s (snd (onEvent l error event s))) =
           [Invoked (lid l) error event, Removed (lid l), Called (lid l) error event] \<and>
         callbacks_of (lid l) (emitted s (snd (onEvent l error event s))) = [(error, event)] \<and>
         lid l \<notin> ids (snd (onEvent l error event s))"
proof -
  define s1 where "s1 = at_callback l error event s"
  define s' where "s' = snd (onEvent l error event s)"
  from assms(2) have m: "lid l \<in> ids s" by (rule waiting_ids)
  from assms(3) have o: "one_shot l" by (simp add: one_shot_def)
  from m have mo: "one_shot l \<longrightarrow> lid l \<in> ids s" by simp
  have r: "run (script (callback l)) s1 = (fst (onEvent l error event s), s')"
    using onEvent_runs_callback[OF assms(4) mo] by (simp add: s1_def s'_def)
  from evolves_at_callback[OF assms(1) mo] have e1: "evolves s s1" by (simp add: s1_def)
  from evolves_run[OF evolves_wellformed[OF e1] r] have e2: "evolves s1 s'" .
  from emitted_run[OF evolves_wellformed[OF e1] r] have m2: "list_all membership (emitted s1 s')" .
  have em: "emitted s s' =
      [Invoked (lid l) error event, Removed (lid l), Called (lid l) error event] @ emitted s1 s'"
    using evolves_emitted[OF e1 e2] o by (simp add: s1_def emitted_at_callback)
  have "callbacks_of h tr = []" if "list_all membership tr" for h tr
    using that by (induction h tr rule: callbacks_of.induct) auto
  with m2 have c: "callbacks_of (lid l) (emitted s1 s') = []" by blast
  from evolves_trans[OF e1 e2] have "lid l \<notin> ids s'"
    unfolding evolves_def em by simp
  with em c show ?thesis by (simp add: s'_def)
qed

theorem unregistered_before_callback_witness:
  "wellformed throwing \<and> thrower \<in> waiting 0 throwing \<and>
   unregister (options thrower) \<noteq> Some False \<and>
   matches thrower None (Some (EventInfo ''tx1'')) = Some True \<and>
   fst (onEvent thrower None (Some (EventInfo ''tx1'')) throwing) = Some (Error ''boom'') \<and>
   emitted throwing (snd (onEvent thrower None (Some (EventInfo ''tx1'')) throwing)) =
     [Invoked 0 None (Some (EventInfo ''tx1'')), Removed 0, Called 0 None (Some (EventInfo ''tx1''))] \<and>
   lid thrower \<notin> ids (snd (onEvent thrower None (Some (EventInfo ''tx1'')) throwing))"
proof -
  have w: "wellformed throwing" by code_simp
  have t: "thrower \<in> waiting 0 throwing" by code_simp
  have u: "unregister (options thrower) \<noteq> Some False" by code_simp
  have m: "matches thrower None (Some (EventInfo ''tx1'')) = Some True" by code_simp
  have r: "fst (onEvent thrower None (Some (EventInfo ''tx1'')) throwing) = Some (Error ''boom'')"
    by code_simp
  have e: "emitted throwing (snd (onEvent thrower None (Some (EventInfo ''tx1'')) throwing)) =
     [Invoked 0 None (Some (EventInfo ''tx1'')), Removed 0, Called 0 None (Some (EventInfo ''tx1''))]"
    by code_simp
  from unregistered_before_callback[OF w t u m]
  have g: "lid thrower \<notin> ids (snd (onEvent thrower None (Some (EventInfo ''tx1'')) throwing))"
    by blast
  from w t u m r e g show ?thesis by blast
qed

section \<open>Dispatch to callbacks that leave the stream alone\<close>

lemma additions_append [simp]: "additions (xs @ ys) \<longleftrightarrow> additions xs \<and> additions ys"
  by (simp add: additions_def)

lemma additions_Nil [simp]: "additions []"
  by (simp add: additions_def)

lemma all_quiet_history [simp]: "all_quiet (s\<lparr>history := tr\<rparr>) = all_quiet s"
  by (simp add: all_quiet_def)









lemma events_of_Nil [simp]: "events_of h [] = []"
  by (simp add: events_of_def)







section \<open>What a listener gets of errors and events\<close>

subsection \<open>Listeners that are not in the set\<close>





subsection \<open>One call of \<open>onEvent\<close> on a registered listener\<close>





subsection \<open>Errors\<close>




subsection \<open>Events\<close>




section \<open>Properties of the network\<close>

subsection \<open>Commit listeners\<close>

lemma update_new: "map_of al k = None \<Longrightarrow> AList.update k v al = al @ [(k, v)]"
  by (induction al) auto

lemma fresh_removeCommitListener [simp]:
  "fresh (snd (removeCommitListener close listener n)) = fresh n"
  by (simp add: removeCommitListener_def called_def Let_def split: option.splits)

lemma fresh_removals [simp]: "fresh (removals close ks n) = fresh n"
  by (induction ks arbitrary: n) simp_all

lemma list_all_delete: "list_all P al \<Longrightarrow> list_all P (AList.delete k al)"
  by (simp add: AList.delete_eq list_all_iff)

lemma sessions_ok_called: "sessions_ok (called cs n) = sessions_ok n"
  by (simp add: sessions_ok_def called_def)

lemma sessions_ok_remove:
  assumes "sessions_ok n"
  shows "sessions_ok (snd (removeCommitListener close listener n))"
  using assms
  by (auto simp: removeCommitListener_def sessions_ok_def called_def Let_def distinct_delete
      list_all_delete split: option.splits)

lemma sessions_ok_removals:
  "sessions_ok n \<Longrightarrow> sessions_ok (removals close ks n)"
  by (induction ks arbitrary: n) (simp_all add: sessions_ok_remove)

lemma store_session_new:
  assumes "map_of (commitListeners n) listener = None"
  shows "store_session listener peers txid n =
     (\<lparr>sid = fresh n, session_listener = listener, session_peers = peers,
       session_transactionId = txid\<rparr>,
      n\<lparr>commitListeners := commitListeners n @
           [(listener, \<lparr>sid = fresh n, session_listener = listener, session_peers = peers,
                        session_transactionId = txid\<rparr>)],
        fresh := Suc (fresh n)\<rparr>)"
  using assms by (simp add: store_session_def Let_def update_new)

lemma sessions_ok_store:
  assumes "sessions_ok n" and "map_of (commitListeners n) listener = None"
  shows "sessions_ok (snd (store_session listener peers txid n))"
proof -
  from assms(2) have "listener \<notin> fst ` set (commitListeners n)"
    by (simp add: map_of_eq_None_iff)
  moreover from assms(1) have "list_all (\<lambda>(listener, session).
      session_listener session = listener \<and> sid session < Suc (fresh n)) (commitListeners n)"
    by (auto simp: sessions_ok_def list_all_iff)
  ultimately show ?thesis
    using assms by (simp add: store_session_new sessions_ok_def)
qed

lemma sessions_ok_add:
  assumes "sessions_ok n"
  shows "sessions_ok (snd (addCommitListener start close listener peers txid n))"
proof (cases "map_of (commitListeners n) listener = None")
  case True
  obtain session n1 where st: "store_session listener peers txid n = (session, n1)"
    by (cases "store_session listener peers txid n")
  from sessions_ok_store[OF assms True, of peers txid] have "sessions_ok n1"
    by (simp add: st)
  then have "sessions_ok (removals close (snd (start session)) (called [SessionStart (sid session)] n1))"
    by (simp add: sessions_ok_removals sessions_ok_called)
  then show ?thesis
    using True by (cases "start session") (simp add: addCommitListener_def st)
next
  case False
  with assms show ?thesis by (auto simp: addCommitListener_def)
qed

text \<open>
  The networks of the statement below: the new network has a map of this kind, and every
  operation of the network keeps it so.
\<close>

lemma sessions_ok_new: "sessions_ok newNetwork"
  by (simp add: sessions_ok_def newNetwork_def)

lemma sessions_ok_getContract:
  assumes "sessions_ok n"
  shows "sessions_ok (snd (getContract cc nm cols n))"
  using assms
  by (auto simp: getContract_def sessions_ok_def Let_def list_all_iff split: option.splits)

lemma connect_keeps:
  "commitListeners (snd (connect_discoverers env ts ds n)) = commitListeners n \<and>
   fresh (snd (connect_discoverers env ts ds n)) = fresh n"
  by (induction env ts ds n rule: connect_discoverers.induct)
     (auto simp: called_def Let_def split: option.splits)

lemma sessions_ok_initialize:
  assumes "sessions_ok n"
  shows "sessions_ok (snd (initializeInternalChannel env opts n))"
proof -
  have k: "commitListeners (snd (known_targets env n)) = commitListeners n \<and>
      fresh (snd (known_targets env n)) = fresh n" for n
    by (auto simp: known_targets_def called_def Let_def split: option.splits if_splits prod.splits)
  have d: "commitListeners (snd (discover env opts ts n)) = commitListeners n \<and>
      fresh (snd (discover env opts ts n)) = fresh n" for ts n
    using connect_keeps[of env ts "[]" n]
    by (auto simp: discover_def called_def Let_def split: option.splits sum.splits prod.splits)
  have "commitListeners (snd (initializeInternalChannel env opts n)) = commitListeners n \<and>
      fresh (snd (initializeInternalChannel env opts n)) = fresh n"
    using k[of n] d
    by (auto simp: initializeInternalChannel_def split: sum.splits prod.splits)
  with assms show ?thesis by (simp add: sessions_ok_def)
qed

lemma session_allocated:
  assumes "sessions_ok n" and "session \<in> snd ` set (commitListeners n)"
  shows "sid session < fresh n"
  using assms by (auto simp: sessions_ok_def list_all_iff)

text \<open>
  C6. On a network whose commit-listener map holds at most one entry for each callback,
  every entry under the callback its session was created for, \<open>addCommitListener\<close> and
  \<open>removeCommitListener\<close> leave a map of that kind. While a callback has an entry,
  \<open>addCommitListener\<close> with that callback returns the callback and changes nothing: no
  session is created. \<open>removeCommitListener\<close> does nothing for a callback without an
  entry; otherwise it closes the stored session and, unless \<open>close\<close> throws, deletes the
  entry. After such a removal the callback has no entry, and \<open>addCommitListener\<close> with
  that callback creates a session that is a new object, different from the removed
  session and from every session the map held, stores it as the callback's entry and
  starts it; unless a callback removes it again while it starts, it is the callback's
  entry afterwards.
\<close>

theorem commit_listener_map:
  assumes "sessions_ok n"
  shows
  "sessions_ok (snd (addCommitListener start close listener peers txid n)) \<and>
   sessions_ok (snd (removeCommitListener close listener n)) \<and>
   (map_of (commitListeners n) listener \<noteq> None \<longrightarrow>
      addCommitListener start close listener peers txid n = (Inr listener, n)) \<and>
   (map_of (commitListeners n) listener = None \<longrightarrow>
      removeCommitListener close listener n = (None, n)) \<and>
   (\<forall>old x. map_of (commitListeners n) listener = Some old \<longrightarrow> close old = Some x \<longrightarrow>
      removeCommitListener close listener n = (Some x, called [SessionClose (sid old)] n)) \<and>
   (\<forall>old. map_of (commitListeners n) listener = Some old \<longrightarrow> close old = None \<longrightarrow>
      (let n1 = snd (removeCommitListener close listener n);
           new = \<lparr>sid = fresh n1, session_listener = listener, session_peers = peers,
                  session_transactionId = txid\<rparr>
       in removeCommitListener close listener n =
            (None, n\<lparr>commitListeners := AList.delete listener (commitListeners n),
                     calls := calls n @ [SessionClose (sid old)]\<rparr>) \<and>
          map_of (commitListeners n1) listener = None \<and>
          new \<noteq> old \<and> sid new \<noteq> sid old \<and>
          sid new \<notin> sid ` snd ` set (commitListeners n) \<and>
          addCommitListener start close listener peers txid n1 =
            ((case fst (start new) of Some x \<Rightarrow> Inl x | None \<Rightarrow> Inr listener),
             removals close (snd (start new))
               (n1\<lparr>commitListeners := commitListeners n1 @ [(listener, new)],
                   fresh := Suc (fresh n1),
                   calls := calls n1 @ [SessionStart (sid new)]\<rparr>)) \<and>
          (snd (start new) = [] \<longrightarrow>
             map_of (commitListeners (snd (addCommitListener start close listener peers txid n1)))
               listener = Some new)))"
proof (intro conjI allI impI)
  show "sessions_ok (snd (addCommitListener start close listener peers txid n))"
    using assms by (rule sessions_ok_add)
  show "sessions_ok (snd (removeCommitListener close listener n))"
    using assms by (rule sessions_ok_remove)
  show "addCommitListener start close listener peers txid n = (Inr listener, n)"
    if "map_of (commitListeners n) listener \<noteq> None"
    using that by (auto simp: addCommitListener_def)
  show "removeCommitListener close listener n = (None, n)"
    if "map_of (commitListeners n) listener = None"
    using that by (simp add: removeCommitListener_def)
  show "removeCommitListener close listener n = (Some x, called [SessionClose (sid old)] n)"
    if "map_of (commitListeners n) listener = Some old" and "close old = Some x" for old x
    using that by (simp add: removeCommitListener_def Let_def)
next
  fix old
  assume m: "map_of (commitListeners n) listener = Some old" and c: "close old = None"
  define n1 where "n1 = snd (removeCommitListener close listener n)"
  define new where "new = \<lparr>sid = fresh n1, session_listener = listener, session_peers = peers,
                  session_transactionId = txid\<rparr>"
  have r: "removeCommitListener close listener n =
            (None, n\<lparr>commitListeners := AList.delete listener (commitListeners n),
                     calls := calls n @ [SessionClose (sid old)]\<rparr>)"
    using m c by (simp add: removeCommitListener_def Let_def called_def)
  then have n1: "n1 = n\<lparr>commitListeners := AList.delete listener (commitListeners n),
                     calls := calls n @ [SessionClose (sid old)]\<rparr>"
    by (simp add: n1_def)
  have gone: "map_of (commitListeners n1) listener = None"
    by (simp add: n1 delete_conv')
  have f: "fresh n1 = fresh n" by (simp add: n1)
  from m have "old \<in> snd ` set (commitListeners n)"
    by (metis map_of_SomeD image_eqI snd_conv)
  from session_allocated[OF assms this] have d: "sid new \<noteq> sid old"
    by (simp add: new_def f)
  then have d': "new \<noteq> old" by auto
  have e: "sid new \<notin> sid ` snd ` set (commitListeners n)"
  proof
    assume "sid new \<in> sid ` snd ` set (commitListeners n)"
    then obtain session where "session \<in> snd ` set (commitListeners n)" and "sid session = sid new"
      by (metis imageE)
    with session_allocated[OF assms, of session] show False by (simp add: new_def f)
  qed
  have a: "addCommitListener start close listener peers txid n1 =
            ((case fst (start new) of Some x \<Rightarrow> Inl x | None \<Rightarrow> Inr listener),
             removals close (snd (start new))
               (n1\<lparr>commitListeners := commitListeners n1 @ [(listener, new)],
                   fresh := Suc (fresh n1),
                   calls := calls n1 @ [SessionStart (sid new)]\<rparr>))"
    using gone
    by (simp add: addCommitListener_def store_session_new new_def called_def split: prod.splits)
  have s: "map_of (commitListeners (snd (addCommitListener start close listener peers txid n1)))
               listener = Some new" if "snd (start new) = []"
    using that gone by (simp add: a map_add_def)
  from r gone d d' e a s
  show "let n1 = snd (removeCommitListener close listener n);
           new = \<lparr>sid = fresh n1, session_listener = listener, session_peers = peers,
                  session_transactionId = txid\<rparr>
       in removeCommitListener close listener n =
            (None, n\<lparr>commitListeners := AList.delete listener (commitListeners n),
                     calls := calls n @ [SessionClose (sid old)]\<rparr>) \<and>
          map_of (commitListeners n1) listener = None \<and>
          new \<noteq> old \<and> sid new \<noteq> sid old \<and>
          sid new \<notin> sid ` snd ` set (commitListeners n) \<and>
          addCommitListener start close listener peers txid n1 =
            ((case fst (start new) of Some x \<Rightarrow> Inl x | None \<Rightarrow> Inr listener),
             removals close (snd (start new))
               (n1\<lparr>commitListeners := commitListeners n1 @ [(listener, new)],
                   fresh := Suc (fresh n1),
                   calls := calls n1 @ [SessionStart (sid new)]\<rparr>)) \<and>
          (snd (start new) = [] \<longrightarrow>
             map_of (commitListeners (snd (addCommitListener start close listener peers txid n1)))
               listener = Some new)"
    unfolding Let_def n1_def[symmetric] new_def[symmetric] by blast
qed

theorem commit_listener_map_witness:
  "sessions_ok listening \<and>
   map_of (commitListeners listening) 5 =
     Some \<lparr>sid = 0, session_listener = 5, session_peers = [peer1], session_transactionId = ''tx1''\<rparr> \<and>
   addCommitListener starts closes 5 [peer2] ''tx2'' listening = (Inr 5, listening) \<and>
   removeCommitListener closes 5 listening =
     (None, newNetwork\<lparr>fresh := 1, calls := [SessionStart 0, SessionClose 0]\<rparr>) \<and>
   sessions_ok (snd (removeCommitListener closes 5 listening)) \<and>
   addCommitListener starts closes 5 [peer2] ''tx2'' (snd (removeCommitListener closes 5 listening)) =
     (Inr 5,
      newNetwork\<lparr>commitListeners :=
          [(5, \<lparr>sid = 1, session_listener = 5, session_peers = [peer2],
                 session_transactionId = ''tx2''\<rparr>)],
        fresh := 2, calls := [SessionStart 0, SessionClose 0, SessionStart 1]\<rparr>) \<and>
   map_of (commitListeners
      (snd (addCommitListener starts closes 5 [peer2] ''tx2''
         (snd (removeCommitListener closes 5 listening))))) 5 =
     Some \<lparr>sid = 1, session_listener = 5, session_peers = [peer2], session_transactionId = ''tx2''\<rparr> \<and>
   addCommitListener starts_and_is_removed closes 5 [peer2] ''tx2''
       (snd (removeCommitListener closes 5 listening)) =
     (Inr 5, newNetwork\<lparr>fresh := 2,
        calls := [SessionStart 0, SessionClose 0, SessionStart 1, SessionClose 1]\<rparr>)"
proof -
  let ?old = "\<lparr>sid = 0, session_listener = 5, session_peers = [peer1], session_transactionId = ''tx1''\<rparr>"
  have ok: "sessions_ok listening" by code_simp
  have m: "map_of (commitListeners listening) 5 = Some ?old" by code_simp
  have c: "closes ?old = None" by code_simp
  have s: "snd (starts \<lparr>sid = fresh (snd (removeCommitListener closes 5 listening)),
             session_listener = 5, session_peers = [peer2], session_transactionId = ''tx2''\<rparr>) = []"
    by (simp add: starts_def)
  have f: "fresh (snd (removeCommitListener closes 5 listening)) = 1" by code_simp
  have r: "removeCommitListener closes 5 listening =
     (None, newNetwork\<lparr>fresh := 1, calls := [SessionStart 0, SessionClose 0]\<rparr>)"
    by code_simp
  have a: "addCommitListener starts closes 5 [peer2] ''tx2'' (snd (removeCommitListener closes 5 listening)) =
     (Inr 5,
      newNetwork\<lparr>commitListeners :=
          [(5, \<lparr>sid = 1, session_listener = 5, session_peers = [peer2],
                 session_transactionId = ''tx2''\<rparr>)],
        fresh := 2, calls := [SessionStart 0, SessionClose 0, SessionStart 1]\<rparr>)"
    by code_simp
  note inst = commit_listener_map[OF ok, of starts closes 5 "[peer2]" "''tx2''", unfolded Let_def]
  from inst m have 1: "addCommitListener starts closes 5 [peer2] ''tx2'' listening = (Inr 5, listening)"
    by simp
  from inst have 2: "sessions_ok (snd (removeCommitListener closes 5 listening))"
    by simp
  from inst m c s
  have 3: "map_of (commitListeners
      (snd (addCommitListener starts closes 5 [peer2] ''tx2''
         (snd (removeCommitListener closes 5 listening))))) 5 =
     Some \<lparr>sid = fresh (snd (removeCommitListener closes 5 listening)),
             session_listener = 5, session_peers = [peer2], session_transactionId = ''tx2''\<rparr>"
    by blast
  have b: "addCommitListener starts_and_is_removed closes 5 [peer2] ''tx2''
       (snd (removeCommitListener closes 5 listening)) =
     (Inr 5, newNetwork\<lparr>fresh := 2,
        calls := [SessionStart 0, SessionClose 0, SessionStart 1, SessionClose 1]\<rparr>)"
    by code_simp
  from ok m 1 r 2 a 3 b show ?thesis unfolding f by blast
qed

subsection \<open>Discovery targets\<close>

text \<open>
  C7. With discovery enabled, an empty array of targets makes the initialisation throw
  "No discovery targets found", and an array that holds a target whose \<open>connected\<close> flag
  is false makes it throw an error that carries the name of the first such target. In
  both cases nothing has been asked of any collaborator: the network, with its record of
  calls, is unchanged.
\<close>

theorem discovery_targets_checked_first:
  assumes "enabled opts"
  shows "(targets opts = Targets [] \<longrightarrow>
            initializeInternalChannel env opts n = (Some (Error ''No discovery targets found''), n)) \<and>
         (\<forall>ts. targets opts = Targets ts \<and> (\<exists>t\<in>set ts. \<not> connected t) \<longrightarrow>
            (\<exists>t. find (\<lambda>t. \<not> connected t) ts = Some t \<and> t \<in> set ts \<and> \<not> connected t \<and>
               initializeInternalChannel env opts n =
                 (Some (Error (''Endorser instance '' @ name t @ '' is not connected to an endpoint'')), n)))"
proof (intro conjI allI impI)
  assume "targets opts = Targets []"
  with assms show "initializeInternalChannel env opts n = (Some (Error ''No discovery targets found''), n)"
    by (simp add: initializeInternalChannel_def)
next
  fix ts
  assume a: "targets opts = Targets ts \<and> (\<exists>t\<in>set ts. \<not> connected t)"
  then obtain t where f: "find (\<lambda>t. \<not> connected t) ts = Some t"
    by (cases "find (\<lambda>t. \<not> connected t) ts") (auto simp: find_None_iff)
  then have m: "t \<in> set ts \<and> \<not> connected t"
    by (auto simp: find_Some_iff)
  then have "ts \<noteq> []" by auto
  with assms a f have "initializeInternalChannel env opts n =
      (Some (Error (''Endorser instance '' @ name t @ '' is not connected to an endpoint'')), n)"
    by (simp add: initializeInternalChannel_def)
  with f m show "\<exists>t. find (\<lambda>t. \<not> connected t) ts = Some t \<and> t \<in> set ts \<and> \<not> connected t \<and>
               initializeInternalChannel env opts n =
                 (Some (Error (''Endorser instance '' @ name t @ '' is not connected to an endpoint'')), n)"
    by blast
qed

theorem discovery_targets_checked_first_witness:
  "enabled (discovery_with (Targets [])) \<and>
   initializeInternalChannel (answering [peer1] [] []) (discovery_with (Targets [])) newNetwork =
     (Some (Error ''No discovery targets found''), newNetwork) \<and>
   enabled (discovery_with (Targets [peer1, peer2])) \<and>
   initializeInternalChannel (answering [peer1] [] []) (discovery_with (Targets [peer1, peer2])) newNetwork =
     (Some (Error ''Endorser instance peer2 is not connected to an endpoint''), newNetwork)"
proof -
  have e: "enabled (discovery_with ts)" for ts by (simp add: discovery_with_def)
  have t: "targets (discovery_with ts) = ts" for ts by (simp add: discovery_with_def)
  have f: "find (\<lambda>t. \<not> connected t) [peer1, peer2] = Some peer2"
    by (simp add: peer1_def peer2_def)
  have u: "\<exists>t\<in>set [peer1, peer2]. \<not> connected t" by (simp add: peer2_def)
  from discovery_targets_checked_first[OF e, of "Targets []" "answering [peer1] [] []" newNetwork]
  have first: "initializeInternalChannel (answering [peer1] [] []) (discovery_with (Targets [])) newNetwork =
     (Some (Error ''No discovery targets found''), newNetwork)"
    by (simp add: t)
  from discovery_targets_checked_first[OF e, of "Targets [peer1, peer2]" "answering [peer1] [] []" newNetwork] u
  obtain p where "find (\<lambda>t. \<not> connected t) [peer1, peer2] = Some p"
    and "initializeInternalChannel (answering [peer1] [] []) (discovery_with (Targets [peer1, peer2])) newNetwork =
      (Some (Error (''Endorser instance '' @ name p @ '' is not connected to an endpoint'')), newNetwork)"
    unfolding t by blast
  with f have "initializeInternalChannel (answering [peer1] [] []) (discovery_with (Targets [peer1, peer2])) newNetwork =
      (Some (Error (''Endorser instance '' @ name peer2 @ '' is not connected to an endpoint'')), newNetwork)"
    by simp
  then have second: "initializeInternalChannel (answering [peer1] [] []) (discovery_with (Targets [peer1, peer2])) newNetwork =
     (Some (Error ''Endorser instance peer2 is not connected to an endpoint''), newNetwork)"
    by (simp add: peer2_def)
  from first second e show ?thesis by simp
qed

lemma none_found_iff: "none_found t = (found t = [])"
  by (cases t) auto

lemma known_targets_precedence:
  "known_targets env n =
     (if fst (spec_precedence env) = [] then Inl (Error ''No discovery targets found'')
      else Inr (fst (spec_precedence env)),
      called (snd (spec_precedence env)) n)"
  by (cases "channel_getEndorsers env (identity_mspId env)";
      cases "client_getEndorsers env (Some (identity_mspId env))";
      cases "client_getEndorsers env None")
     (auto simp: known_targets_def spec_precedence_def Let_def called_def none_found_iff)

text \<open>
  C8. With discovery enabled and no targets given, the initialisation uses the peers the
  specification's order of precedence selects (the organisation's peers on the channel,
  otherwise the organisation's peers at the client, otherwise any peer of the client) and
  asks each source once, stopping at the first that answers with a peer. When no source
  has a peer it throws "No discovery targets found" after these three questions and
  nothing else; otherwise discovery runs on the selected peers.
\<close>

theorem target_precedence:
  assumes "enabled opts" and "targets opts = NotGiven"
  shows "initializeInternalChannel env opts n =
           (if fst (spec_precedence env) = []
            then (Some (Error ''No discovery targets found''), called (snd (spec_precedence env)) n)
            else discover env opts (fst (spec_precedence env)) (called (snd (spec_precedence env)) n))"
  using assms by (simp add: initializeInternalChannel_def known_targets_precedence)

theorem target_precedence_witness:
  "enabled (discovery_with NotGiven) \<and> targets (discovery_with NotGiven) = NotGiven \<and>
   initializeInternalChannel (answering [] [] []) (discovery_with NotGiven) newNetwork =
     (Some (Error ''No discovery targets found''),
      newNetwork\<lparr>calls := [GetIdentity, ChannelGetEndorsers ''Org1MSP'',
                           ClientGetEndorsers (Some ''Org1MSP''), ClientGetEndorsers None]\<rparr>) \<and>
   initializeInternalChannel (answering [] [peer1] [peer2, peer1]) (discovery_with NotGiven) newNetwork =
     (None,
      newNetwork\<lparr>discoveryService := Some ''mychannel'',
        calls := [GetIdentity, ChannelGetEndorsers ''Org1MSP'', ClientGetEndorsers (Some ''Org1MSP''),
                  NewDiscoverer ''peer1'' ''Org1MSP'', Connect ''grpc://peer1'',
                  NewDiscoveryService ''mychannel'', Build, Sign,
                  Send False [Discoverer ''peer1'' ''Org1MSP'']]\<rparr>)"
proof -
  have e: "enabled (discovery_with NotGiven)" and t: "targets (discovery_with NotGiven) = NotGiven"
    by (simp_all add: discovery_with_def)
  have p0: "spec_precedence (answering [] [] []) =
      ([], [GetIdentity, ChannelGetEndorsers ''Org1MSP'',
            ClientGetEndorsers (Some ''Org1MSP''), ClientGetEndorsers None])"
    by (simp add: spec_precedence_def answering_def Let_def)
  have p1: "spec_precedence (answering [] [peer1] [peer2, peer1]) =
      ([peer1], [GetIdentity, ChannelGetEndorsers ''Org1MSP'', ClientGetEndorsers (Some ''Org1MSP'')])"
    by (simp add: spec_precedence_def answering_def Let_def)
  have d: "discover (answering [] [peer1] [peer2, peer1]) (discovery_with NotGiven) [peer1]
             (called [GetIdentity, ChannelGetEndorsers ''Org1MSP'', ClientGetEndorsers (Some ''Org1MSP'')]
                newNetwork) =
     (None,
      newNetwork\<lparr>discoveryService := Some ''mychannel'',
        calls := [GetIdentity, ChannelGetEndorsers ''Org1MSP'', ClientGetEndorsers (Some ''Org1MSP''),
                  NewDiscoverer ''peer1'' ''Org1MSP'', Connect ''grpc://peer1'',
                  NewDiscoveryService ''mychannel'', Build, Sign,
                  Send False [Discoverer ''peer1'' ''Org1MSP'']]\<rparr>)"
    by (simp add: discover_def answering_def discovery_with_def called_def newNetwork_def
        peer1_def Let_def)
  from target_precedence[OF e t, of "answering [] [] []" newNetwork]
    target_precedence[OF e t, of "answering [] [peer1] [peer2, peer1]" newNetwork]
  show ?thesis
    by (simp add: e t p0 p1 d) (simp add: called_def newNetwork_def)
qed

subsection \<open>Contracts\<close>












end
